theory Spec2Isabelle
  imports Complex_Main "HOL-Library.Sublist" "HOL-Library.Char_ord" "HOL-Library.List_Lexorder"
    "HOL-Library.Multiset"
begin

text \<open>
  A model of the two scripts of the repository: \<open>strava-checker.py\<close>, which refreshes the
  access token, fetches the latest activities and merges them into \<open>activities.json\<close>, and
  \<open>authorize.py\<close>, which obtains the first tokens. Python functions are functions that
  return either an exception or a value; the files and the listener are explicit state;
  the provider, the browser and the callback queue are given by the outcomes of the calls
  made to them. Opening, reading and writing a file, logging and the parsing of the command
  line are taken to succeed.
\<close>

section \<open>Python values, exceptions and JSON data\<close>

text \<open>
  The exceptions the two scripts distinguish. \<open>OtherError\<close> stands for any other subclass of
  \<open>Exception\<close> (for instance \<open>OverflowError\<close>, or an error of the HTTP client);
  \<open>QueueEmpty\<close> is \<open>queue.Empty\<close>.
\<close>

datatype exn = AttributeError | TypeError | ValueError | KeyError | QueueEmpty | OtherError

text \<open>Sequencing of steps that may raise: the first exception ends the computation.\<close>

definition and_then :: "exn + 'a \<Rightarrow> ('a \<Rightarrow> exn + 'b) \<Rightarrow> exn + 'b" where
  "and_then m f = (case m of Inl e \<Rightarrow> Inl e | Inr x \<Rightarrow> f x)"

text \<open>
  What \<open>json.load\<close> returns and \<open>json.dump\<close> writes. A Python \<open>dict\<close> is an association
  list in insertion order (keys distinct after parsing), a \<open>float\<close> is its exact rational
  value (finite floats only), a \<open>str\<close> is a \<open>string\<close> compared character by character.
\<close>

datatype json =
    JNull
  | JBool bool
  | JInt int
  | JFloat rat
  | JStr string
  | JArr "json list"
  | JObj "(string \<times> json) list"

text \<open>\<open>result[key] = v\<close> on a dict: replace in place, or append a new key at the end.\<close>

fun dict_set :: "(string \<times> json) list \<Rightarrow> string \<Rightarrow> json \<Rightarrow> (string \<times> json) list" where
  "dict_set [] k v = [(k, v)]"
| "dict_set ((k', v') # kvs) k v = (if k' = k then (k, v) # kvs else (k', v') # dict_set kvs k v)"

text \<open>\<open>d[k]\<close> on a dict raises \<open>KeyError\<close> for a missing key.\<close>

definition dict_item :: "(string \<times> json) list \<Rightarrow> string \<Rightarrow> exn + json" where
  "dict_item d k = (case map_of d k of None \<Rightarrow> Inl KeyError | Some v \<Rightarrow> Inr v)"

text \<open>
  Python's \<open>==\<close> on the values that can be members of a set: \<open>bool\<close>, \<open>int\<close> and \<open>float\<close>
  compare by numeric value (\<open>1 == 1.0 == True\<close>), everything else by structure.
\<close>

fun num_val :: "json \<Rightarrow> rat option" where
  "num_val (JBool b) = Some (if b then 1 else 0)"
| "num_val (JInt i) = Some (of_int i)"
| "num_val (JFloat r) = Some r"
| "num_val _ = None"

definition py_eq :: "json \<Rightarrow> json \<Rightarrow> bool" where
  "py_eq a b = (case (num_val a, num_val b) of
      (Some x, Some y) \<Rightarrow> x = y
    | (None, None) \<Rightarrow> a = b
    | _ \<Rightarrow> False)"

text \<open>\<open>x in s\<close> for a set \<open>s\<close>, given by the list of its members.\<close>

definition py_in :: "json \<Rightarrow> json list \<Rightarrow> bool" where
  "py_in x s = (\<exists>y \<in> set s. py_eq x y)"

text \<open>Lists and dicts are unhashable: adding one to a set raises \<open>TypeError\<close>.\<close>

fun hashable :: "json \<Rightarrow> bool" where
  "hashable (JArr _) = False"
| "hashable (JObj _) = False"
| "hashable _ = True"

section \<open>The external activity object\<close>

text \<open>
  An attribute value of a \<open>stravalib\<close> activity is either \<open>None\<close> or an object, which the
  code only observes through \<open>bool()\<close>, \<open>int()\<close>, \<open>float()\<close> and \<open>str()\<close>: an object is
  the outcome of each of the four. An activity maps attribute names to values; a name it
  does not map is an attribute whose access raises \<open>AttributeError\<close>.
\<close>

datatype pyval =
    PNone
  | PObj (obj_bool: "exn + bool") (obj_int: "exn + int") (obj_float: "exn + rat")
      (obj_str: "exn + string")

type_synonym activity = "string \<Rightarrow> pyval option"

fun py_bool :: "pyval \<Rightarrow> exn + bool" where
  "py_bool PNone = Inr False"
| "py_bool (PObj b i f s) = b"

fun py_int :: "pyval \<Rightarrow> exn + int" where
  "py_int PNone = Inl TypeError"
| "py_int (PObj b i f s) = i"

fun py_float :: "pyval \<Rightarrow> exn + rat" where
  "py_float PNone = Inl TypeError"
| "py_float (PObj b i f s) = f"

fun py_str :: "pyval \<Rightarrow> exn + string" where
  "py_str PNone = Inr ''None''"
| "py_str (PObj b i f s) = s"

definition getattr :: "activity \<Rightarrow> string \<Rightarrow> exn + pyval" where
  "getattr a attr = (case a attr of None \<Rightarrow> Inl AttributeError | Some v \<Rightarrow> Inr v)"

text \<open>\<open>f"{activity.id}"\<close> in a log message: the attribute access, then its formatting,
  which for an empty format specification is \<open>str()\<close>.\<close>

definition format_id :: "activity \<Rightarrow> exn + string" where
  "format_id a = and_then (getattr a ''id'') py_str"

section \<open>Normalisation: \<open>activity_to_dict\<close>\<close>

text \<open>\<open>int(activity.id)\<close>, \<open>str(activity.name)\<close>.\<close>

definition required_int :: "activity \<Rightarrow> string \<Rightarrow> exn + json" where
  "required_int a attr = and_then (getattr a attr) (\<lambda>v. and_then (py_int v) (\<lambda>i. Inr (JInt i)))"

definition required_str :: "activity \<Rightarrow> string \<Rightarrow> exn + json" where
  "required_str a attr = and_then (getattr a attr) (\<lambda>v. and_then (py_str v) (\<lambda>s. Inr (JStr s)))"

text \<open>\<open>float(activity.distance) if hasattr(activity, 'distance') and activity.distance else 0.0\<close>
  and its \<open>int\<close> counterpart.\<close>

definition base_float :: "activity \<Rightarrow> string \<Rightarrow> exn + json" where
  "base_float a attr = (case a attr of
      None \<Rightarrow> Inr (JFloat 0)
    | Some v \<Rightarrow> and_then (py_bool v) (\<lambda>t.
        if t then and_then (py_float v) (\<lambda>r. Inr (JFloat r)) else Inr (JFloat 0)))"

definition base_int :: "activity \<Rightarrow> string \<Rightarrow> exn + json" where
  "base_int a attr = (case a attr of
      None \<Rightarrow> Inr (JInt 0)
    | Some v \<Rightarrow> and_then (py_bool v) (\<lambda>t.
        if t then and_then (py_int v) (\<lambda>i. Inr (JInt i)) else Inr (JInt 0)))"

definition base_properties :: "activity \<Rightarrow> exn + (string \<times> json) list" where
  "base_properties a =
     and_then (required_int a ''id'') (\<lambda>i.
     and_then (required_str a ''name'') (\<lambda>n.
     and_then (required_str a ''start_date_local'') (\<lambda>s.
     and_then (required_str a ''type'') (\<lambda>t.
     and_then (base_float a ''distance'') (\<lambda>d.
     and_then (base_int a ''moving_time'') (\<lambda>m.
     and_then (base_int a ''elapsed_time'') (\<lambda>e.
       Inr [(''id'', i), (''name'', n), (''start_date_local'', s), (''type'', t),
            (''distance'', d), (''moving_time'', m), (''elapsed_time'', e)])))))))"

text \<open>The inner handlers catch \<open>(AttributeError, TypeError, ValueError)\<close> and nothing else.\<close>

definition caught :: "exn \<Rightarrow> bool" where
  "caught e = (e = AttributeError \<or> e = TypeError \<or> e = ValueError)"

text \<open>
  The body of each of the four property loops: the attribute missing or \<open>None\<close> gives the
  default, a caught exception of the conversion gives the default, any other exception
  leaves the loop.
\<close>

definition optional_property ::
  "(pyval \<Rightarrow> exn + json) \<Rightarrow> json \<Rightarrow> activity \<Rightarrow> string \<Rightarrow> exn + json" where
  "optional_property conv dflt a attr = (case a attr of
      None \<Rightarrow> Inr dflt
    | Some PNone \<Rightarrow> Inr dflt
    | Some v \<Rightarrow> (case conv v of
        Inr j \<Rightarrow> Inr j
      | Inl e \<Rightarrow> if caught e then Inr dflt else Inl e))"

definition float_property :: "activity \<Rightarrow> string \<Rightarrow> exn + json" where
  "float_property = optional_property (\<lambda>v. and_then (py_float v) (\<lambda>r. Inr (JFloat r))) JNull"

definition int_property :: "activity \<Rightarrow> string \<Rightarrow> exn + json" where
  "int_property = optional_property (\<lambda>v. and_then (py_int v) (\<lambda>i. Inr (JInt i))) (JInt 0)"

definition str_property :: "activity \<Rightarrow> string \<Rightarrow> exn + json" where
  "str_property = optional_property (\<lambda>v. and_then (py_str v) (\<lambda>s. Inr (JStr s))) JNull"

definition bool_property :: "activity \<Rightarrow> string \<Rightarrow> exn + json" where
  "bool_property = optional_property (\<lambda>v. and_then (py_bool v) (\<lambda>b. Inr (JBool b))) (JBool False)"

definition float_properties :: "string list" where
  "float_properties = [''total_elevation_gain'', ''average_speed'', ''max_speed'',
     ''average_heartrate'', ''max_heartrate'', ''average_cadence'', ''average_watts'',
     ''calories'']"

definition int_properties :: "string list" where
  "int_properties = [''kudos_count'', ''achievement_count'', ''athlete_count'']"

definition str_properties :: "string list" where
  "str_properties = [''gear_id'', ''device_name'']"

definition bool_properties :: "string list" where
  "bool_properties = [''private'', ''commute'']"

text \<open>\<open>for key, attr in props.items(): result[key] = ...\<close> (key and attribute names agree).\<close>

fun set_properties ::
  "(activity \<Rightarrow> string \<Rightarrow> exn + json) \<Rightarrow> activity \<Rightarrow> string list \<Rightarrow> (string \<times> json) list
     \<Rightarrow> exn + (string \<times> json) list" where
  "set_properties prop a [] result = Inr result"
| "set_properties prop a (key # keys) result =
     and_then (prop a key) (\<lambda>v. set_properties prop a keys (dict_set result key v))"

text \<open>The \<open>try\<close> block of \<open>activity_to_dict\<close>.\<close>

definition full_dict :: "activity \<Rightarrow> exn + (string \<times> json) list" where
  "full_dict a =
     and_then (base_properties a) (\<lambda>r0.
     and_then (set_properties float_property a float_properties r0) (\<lambda>r1.
     and_then (set_properties int_property a int_properties r1) (\<lambda>r2.
     and_then (set_properties str_property a str_properties r2) (\<lambda>r3.
       set_properties bool_property a bool_properties r3))))"

text \<open>The \<open>except Exception\<close> handler: the log line, then the minimal dict.\<close>

definition minimal_dict :: "activity \<Rightarrow> exn + (string \<times> json) list" where
  "minimal_dict a =
     and_then (format_id a) (\<lambda>_.
     and_then (required_int a ''id'') (\<lambda>i.
     and_then (required_str a ''name'') (\<lambda>n.
     and_then (required_str a ''start_date_local'') (\<lambda>s.
     and_then (required_str a ''type'') (\<lambda>t.
       Inr [(''id'', i), (''name'', n), (''start_date_local'', s), (''type'', t),
            (''distance'', JFloat 0), (''moving_time'', JInt 0), (''elapsed_time'', JInt 0)])))))"

definition activity_to_dict :: "activity \<Rightarrow> exn + (string \<times> json) list" where
  "activity_to_dict a = (case full_dict a of Inr r \<Rightarrow> Inr r | Inl e \<Rightarrow> minimal_dict a)"

section \<open>The activities store\<close>

text \<open>
  The activities file, by what \<open>load_existing_activities\<close> meets: the file is absent;
  \<open>json.load\<close> rejects its content with \<open>JSONDecodeError\<close> (malformed JSON text; an empty file
  is such content); \<open>open\<close> or \<open>json.load\<close> raises another exception (\<open>UnicodeDecodeError\<close>,
  a \<open>ValueError\<close>, on bytes that are not text in the encoding; \<open>RecursionError\<close> on nesting
  too deep; \<open>OSError\<close> on a file that cannot be opened); or \<open>json.load\<close> returns a JSON
  value, which need not be a list of records. The function catches \<open>JSONDecodeError\<close>
  only, so any other exception leaves it.
\<close>

datatype store_file = Missing | Corrupt | Unloadable exn | Json json

fun load_existing_activities :: "store_file \<Rightarrow> exn + json" where
  "load_existing_activities Missing = Inr (JArr [])"
| "load_existing_activities Corrupt = Inr (JArr [])"
| "load_existing_activities (Unloadable e) = Inl e"
| "load_existing_activities (Json v) = Inr v"

text \<open>\<open>for activity in existing_activities\<close>: a list gives its elements, a dict its keys,
  a string its characters; nothing else is iterable.\<close>

fun py_iter :: "json \<Rightarrow> exn + json list" where
  "py_iter (JArr xs) = Inr xs"
| "py_iter (JObj kvs) = Inr (map (\<lambda>kv. JStr (fst kv)) kvs)"
| "py_iter (JStr s) = Inr (map (\<lambda>c. JStr [c]) s)"
| "py_iter _ = Inl TypeError"

text \<open>\<open>'id' in activity\<close>: a key test on a dict, a substring test on a string, a membership
  test on a list, \<open>TypeError\<close> on anything else.\<close>

fun contains_id :: "json \<Rightarrow> exn + bool" where
  "contains_id (JObj kvs) = Inr (map_of kvs ''id'' \<noteq> None)"
| "contains_id (JStr s) = Inr (sublist ''id'' s)"
| "contains_id (JArr xs) = Inr (JStr ''id'' \<in> set xs)"
| "contains_id _ = Inl TypeError"

text \<open>\<open>activity.get('id')\<close>: only a dict has \<open>get\<close>.\<close>

fun get_id :: "json \<Rightarrow> exn + json" where
  "get_id (JObj kvs) = Inr (case map_of kvs ''id'' of None \<Rightarrow> JNull | Some v \<Rightarrow> v)"
| "get_id _ = Inl AttributeError"

text \<open>\<open>{activity.get('id') for activity in existing_activities if 'id' in activity}\<close>, the
  set given by the list of its members in the order they were added.\<close>

fun collect_ids :: "json list \<Rightarrow> exn + json list" where
  "collect_ids [] = Inr []"
| "collect_ids (x # xs) =
     and_then (contains_id x) (\<lambda>b.
       if b then
         and_then (get_id x) (\<lambda>v.
           if hashable v then and_then (collect_ids xs) (\<lambda>vs. Inr (v # vs))
           else Inl TypeError)
       else collect_ids xs)"

definition existing_ids :: "json \<Rightarrow> exn + json list" where
  "existing_ids existing_activities = and_then (py_iter existing_activities) collect_ids"

text \<open>\<open>existing_activities + new_activities\<close>: defined for a list only.\<close>

fun py_concat :: "json \<Rightarrow> json list \<Rightarrow> exn + json list" where
  "py_concat (JArr xs) new = Inr (xs @ new)"
| "py_concat _ new = Inl TypeError"

subsection \<open>Sorting by \<open>start_date_local\<close>\<close>

text \<open>The key function \<open>lambda x: x.get('start_date_local', '')\<close>.\<close>

fun get_start_date :: "json \<Rightarrow> exn + json" where
  "get_start_date (JObj kvs) =
     Inr (case map_of kvs ''start_date_local'' of None \<Rightarrow> JStr [] | Some v \<Rightarrow> v)"
| "get_start_date _ = Inl AttributeError"

fun is_str :: "json \<Rightarrow> bool" where
  "is_str (JStr s) = True"
| "is_str _ = False"

fun is_arr :: "json \<Rightarrow> bool" where
  "is_arr (JArr xs) = True"
| "is_arr _ = False"

definition start_date_str :: "json \<Rightarrow> string" where
  "start_date_str x = (case get_start_date x of Inr (JStr s) \<Rightarrow> s | _ \<Rightarrow> [])"

definition start_date_num :: "json \<Rightarrow> rat" where
  "start_date_num x = (case get_start_date x of
      Inr k \<Rightarrow> (case num_val k of Some r \<Rightarrow> r | None \<Rightarrow> 0)
    | Inl e \<Rightarrow> 0)"

fun collect :: "(exn + 'a) list \<Rightarrow> exn + 'a list" where
  "collect [] = Inr []"
| "collect (m # ms) = and_then m (\<lambda>x. and_then (collect ms) (\<lambda>xs. Inr (x # xs)))"

text \<open>
  \<open>list.sort(key=...)\<close> calls the key function on every element first, then sorts stably
  with \<open><\<close> on the keys. Strings compare lexicographically and numbers by value; a string
  against a non-string, \<open>None\<close> or a dict against anything, and a list against a non-list
  raise \<open>TypeError\<close>. With two or more elements every element takes part in a comparison,
  and a sort that ends without an exception has compared across every two groups of keys,
  so keys of which some but not all are strings (or numbers, or lists) raise. Whether
  keys that are all lists raise depends on the pairs the algorithm compares, which is left
  open here; \<open>merge_determined\<close> below shows that \<open>main\<close> never sorts such a list.
\<close>

datatype sort_outcome = Sorted "json list" | Sort_raised exn | Sort_order_dependent

definition sort_by_start_date :: "json list \<Rightarrow> sort_outcome" where
  "sort_by_start_date xs = (case collect (map get_start_date xs) of
      Inl e \<Rightarrow> Sort_raised e
    | Inr ks \<Rightarrow>
        if length xs \<le> 1 then Sorted xs
        else if \<forall>k \<in> set ks. is_str k then Sorted (sort_key start_date_str xs)
        else if \<exists>k \<in> set ks. is_str k then Sort_raised TypeError
        else if \<forall>k \<in> set ks. num_val k \<noteq> None then Sorted (sort_key start_date_num xs)
        else if \<exists>k \<in> set ks. \<not> is_arr k then Sort_raised TypeError
        else Sort_order_dependent)"

section \<open>The merge of a sync run\<close>

text \<open>
  One pass of the loop over the fetched activities: the \<open>try\<close> body gives the dict to
  append, if any; the handler formats \<open>activity.id\<close> for the warning, and an exception
  of the handler leaves the loop.
\<close>

definition process_activity :: "json list \<Rightarrow> activity \<Rightarrow> exn + json option" where
  "process_activity ids a =
     and_then (activity_to_dict a) (\<lambda>d.
     and_then (dict_item d ''id'') (\<lambda>i.
       Inr (if \<not> py_in i ids then Some (JObj d) else None)))"

fun collect_new :: "json list \<Rightarrow> activity list \<Rightarrow> exn + json list" where
  "collect_new ids [] = Inr []"
| "collect_new ids (a # as) = (case process_activity ids a of
      Inr r \<Rightarrow> and_then (collect_new ids as) (\<lambda>new.
        Inr (case r of None \<Rightarrow> new | Some d \<Rightarrow> d # new))
    | Inl e \<Rightarrow> and_then (format_id a) (\<lambda>_. collect_new ids as))"

text \<open>
  The part of \<open>main\<close> after the fetch: what is handed to \<open>save_activities\<close>, if anything;
  \<open>full\<close> is \<open>args.full_refresh\<close>. \<open>Aborted\<close> is an exception that reaches the handlers at
  the end of \<open>main\<close>.
\<close>

datatype merge_result = Wrote "json list" | No_write | Aborted exn | Undetermined

definition merge_activities :: "bool \<Rightarrow> store_file \<Rightarrow> activity list \<Rightarrow> merge_result" where
  "merge_activities full f strava_activities =
     (case (if full then Inr (JArr []) else load_existing_activities f) of
        Inl e \<Rightarrow> Aborted e
      | Inr existing_activities \<Rightarrow>
         (case (if full then Inr [] else existing_ids existing_activities) of
            Inl e \<Rightarrow> Aborted e
          | Inr ids \<Rightarrow> (case collect_new ids strava_activities of
              Inl e \<Rightarrow> Aborted e
            | Inr new_activities \<Rightarrow>
                if new_activities \<noteq> [] \<or> full then
                  (case (if full then Inr new_activities
                         else py_concat existing_activities new_activities) of
                      Inl e \<Rightarrow> Aborted e
                    | Inr updated_activities \<Rightarrow> (case sort_by_start_date updated_activities of
                          Sorted ys \<Rightarrow> Wrote ys
                        | Sort_raised e \<Rightarrow> Aborted e
                        | Sort_order_dependent \<Rightarrow> Undetermined))
                else No_write)))"

text \<open>The activities file after the merge: \<open>save_activities\<close> overwrites it with the list
  (the write itself is taken to succeed), and in every other case the file is not opened
  for writing.\<close>

definition save_result :: "merge_result \<Rightarrow> store_file \<Rightarrow> store_file" where
  "save_result r f = (case r of Wrote ys \<Rightarrow> Json (JArr ys) | _ \<Rightarrow> f)"

definition sync_file :: "bool \<Rightarrow> store_file \<Rightarrow> activity list \<Rightarrow> store_file" where
  "sync_file full f strava_activities =
     save_result (merge_activities full f strava_activities) f"

section \<open>The credentials file: \<open>update_env_file\<close>\<close>

text \<open>
  The content of \<open>.env\<close> as it is in the file. Both scripts open it in text mode with the
  default \<open>newline=None\<close>. On reading, a carriage return followed by a newline and a
  carriage return alone are handed to the program as one newline (\<open>universal_newlines\<close>),
  and \<open>readlines\<close> cuts the translated text after every newline, so each line keeps its
  newline and only the last one may lack it (\<open>lines_of\<close>). \<open>writelines\<close> concatenates. On
  writing, a newline is written as \<open>os.linesep\<close>: the file is modelled where that is the
  newline itself, and \<open>write_text\<close> gives the file for another \<open>os.linesep\<close>.
\<close>

definition newline :: char where
  "newline = CHR 0x0A"

definition carriage_return :: char where
  "carriage_return = CHR 0x0D"

fun universal_newlines :: "string \<Rightarrow> string" where
  "universal_newlines [] = []"
| "universal_newlines [c] = (if c = carriage_return then [newline] else [c])"
| "universal_newlines (c # d # cs) =
     (if c = carriage_return then
        (if d = newline then newline # universal_newlines cs
         else newline # universal_newlines (d # cs))
      else c # universal_newlines (d # cs))"

fun lines_of :: "string \<Rightarrow> string list" where
  "lines_of [] = []"
| "lines_of (c # cs) =
     (if c = newline then [c] # lines_of cs
      else (case lines_of cs of [] \<Rightarrow> [[c]] | l # ls \<Rightarrow> (c # l) # ls))"

definition readlines :: "string \<Rightarrow> string list" where
  "readlines raw = lines_of (universal_newlines raw)"

definition write_text :: "string \<Rightarrow> string \<Rightarrow> string" where
  "write_text linesep s = concat (map (\<lambda>c. if c = newline then linesep else [c]) s)"

definition writelines :: "string list \<Rightarrow> string" where
  "writelines ls = concat ls"

record token_response =
  access_token :: string
  refresh_token :: string

definition access_line :: "token_response \<Rightarrow> string" where
  "access_line t = ''ACCESS_TOKEN='' @ access_token t @ [newline]"

definition refresh_line :: "token_response \<Rightarrow> string" where
  "refresh_line t = ''REFRESH_TOKEN='' @ refresh_token t @ [newline]"

text \<open>The loop over the lines, with \<open>new_lines\<close> and the two \<open>tokens_updated\<close> flags.\<close>

fun update_lines ::
  "token_response \<Rightarrow> string list \<Rightarrow> string list \<times> bool \<times> bool \<Rightarrow> string list \<times> bool \<times> bool" where
  "update_lines t [] st = st"
| "update_lines t (line # lines) (new_lines, acc, ref) =
     (if prefix ''ACCESS_TOKEN='' line then
        update_lines t lines (new_lines @ [access_line t], True, ref)
      else if prefix ''REFRESH_TOKEN='' line then
        update_lines t lines (new_lines @ [refresh_line t], acc, True)
      else update_lines t lines (new_lines @ [line], acc, ref))"

text \<open>The file before (\<open>None\<close> when \<open>.env\<close> does not exist) and its text after.\<close>

definition update_env_file :: "token_response \<Rightarrow> string option \<Rightarrow> string" where
  "update_env_file t env =
     (let lines = (case env of Some text \<Rightarrow> readlines text | None \<Rightarrow> []);
          (new_lines, acc, ref) = update_lines t lines ([], False, False);
          new_lines = (if \<not> acc then new_lines @ [access_line t] else new_lines);
          new_lines = (if \<not> ref then new_lines @ [refresh_line t] else new_lines)
      in writelines new_lines)"

section \<open>The sync run: \<open>get_token\<close> and \<open>main\<close>\<close>

text \<open>The module-level configuration, read from the environment when the script starts.\<close>

record config =
  CLIENT_ID :: "string option"
  CLIENT_SECRET :: "string option"
  REFRESH_TOKEN :: "string option"

text \<open>Truth value of what \<open>os.getenv\<close> returns: \<open>None\<close> and the empty string are false.\<close>

definition is_set :: "string option \<Rightarrow> bool" where
  "is_set v = (case v of None \<Rightarrow> False | Some s \<Rightarrow> s \<noteq> [])"

record args =
  full_refresh :: bool
  limit :: int

text \<open>
  The provider, seen from one run: the outcome of \<open>client.refresh_access_token\<close> and, for an
  access token and a limit, of \<open>list(client.get_activities(limit=...))\<close>.
\<close>

record provider =
  refresh_access_token :: "exn + token_response"
  get_activities :: "string \<Rightarrow> int \<Rightarrow> exn + activity list"

text \<open>The two files a run can write.\<close>

record files =
  env_file :: "string option"
  activities_file :: store_file

text \<open>
  \<open>get_token\<close>: the access token or the \<open>ValueError\<close> it raises, and the credentials file
  after it. A failed refresh is caught and logged, then \<open>ValueError\<close> is raised.
\<close>

definition get_token :: "config \<Rightarrow> provider \<Rightarrow> string option \<Rightarrow> (exn + string) \<times> string option" where
  "get_token cfg p env =
     (if is_set (REFRESH_TOKEN cfg) then
        (case refresh_access_token p of
            Inr refresh_response \<Rightarrow>
              (Inr (access_token refresh_response), Some (update_env_file refresh_response env))
          | Inl e \<Rightarrow> (Inl ValueError, env))
      else (Inl ValueError, env))"

text \<open>\<open>main\<close> of the sync script: every exception is caught and logged, so a run is the
  two files after it. A failed fetch is logged and \<open>main\<close> returns; an exception of the merge
  reaches the handlers at the end, before anything is saved.\<close>

definition main :: "config \<Rightarrow> args \<Rightarrow> provider \<Rightarrow> files \<Rightarrow> files" where
  "main cfg ar p w =
     (if \<not> (is_set (CLIENT_ID cfg) \<and> is_set (CLIENT_SECRET cfg)) then w
      else (case get_token cfg p (env_file w) of
          (Inl e, env) \<Rightarrow> w\<lparr>env_file := env\<rparr>
        | (Inr token, env) \<Rightarrow> (case get_activities p token (limit ar) of
              Inl e \<Rightarrow> w\<lparr>env_file := env\<rparr>
            | Inr strava_activities \<Rightarrow>
                \<lparr>env_file = env,
                 activities_file =
                   sync_file (full_refresh ar) (activities_file w) strava_activities\<rparr>)))"

section \<open>The authorization script\<close>

text \<open>
  What the bootstrap flow meets: whether \<open>create_local_server\<close> raises, the outcome of
  building the URL and of opening the browser, the outcome of
  \<open>auth_queue.get(timeout=60)\<close> (the code the callback thread put, or \<open>queue.Empty\<close> when
  the 60 seconds pass without one), and the outcome of the code exchange.
\<close>

record auth_provider =
  create_local_server :: "exn option"
  authorization_url :: "exn + string"
  webbrowser_open :: "exn option"
  auth_queue_get :: "exn + string"
  exchange_code_for_token :: "string \<Rightarrow> exn + token_response"

text \<open>The listener (its thread serving, its port bound) and the credentials file.\<close>

record auth_state =
  serving :: bool
  port_bound :: bool
  credentials :: "string option"

definition may_raise :: "exn option \<Rightarrow> exn + unit" where
  "may_raise r = (case r of Some e \<Rightarrow> Inl e | None \<Rightarrow> Inr ())"

text \<open>The \<open>try\<close> body after the server has started, up to the token response.\<close>

definition authorize_steps :: "auth_provider \<Rightarrow> exn + token_response" where
  "authorize_steps p =
     and_then (authorization_url p) (\<lambda>auth_url.
     and_then (may_raise (webbrowser_open p)) (\<lambda>_.
     and_then (auth_queue_get p) (\<lambda>code.
       exchange_code_for_token p code)))"

text \<open>The \<open>finally\<close> clause: \<open>server.shutdown()\<close> and \<open>server.server_close()\<close>.\<close>

definition stop_server :: "auth_state \<Rightarrow> auth_state" where
  "stop_server w = w\<lparr>serving := False, port_bound := False\<rparr>"

text \<open>\<open>main\<close> of the authorization script: the exception it re-raises, if any, and the
  state after it.\<close>

definition authorize_main :: "config \<Rightarrow> auth_provider \<Rightarrow> auth_state \<Rightarrow> exn option \<times> auth_state" where
  "authorize_main cfg p w =
     (if \<not> (is_set (CLIENT_ID cfg) \<and> is_set (CLIENT_SECRET cfg)) then (Some ValueError, w)
      else (case create_local_server p of
          Some e \<Rightarrow> (Some e, w)
        | None \<Rightarrow>
            (let w1 = w\<lparr>serving := True, port_bound := True\<rparr>
             in case authorize_steps p of
                 Inl e \<Rightarrow> (Some e, stop_server w1)
               | Inr token_response \<Rightarrow>
                   (None, stop_server
                      (w1\<lparr>credentials := Some (update_env_file token_response (credentials w1))\<rparr>)))))"

section \<open>Notions the properties are stated with\<close>

text \<open>A record whose sort key is a string: a dict whose \<open>start_date_local\<close> is a string or
  is missing (the key function then gives the empty string).\<close>

definition str_keyed :: "json \<Rightarrow> bool" where
  "str_keyed x = (\<exists>s. get_start_date x = Inr (JStr s))"

text \<open>The ids of the records of a store, in order: one for each dict with an \<open>id\<close> key.\<close>

fun record_id :: "json \<Rightarrow> json option" where
  "record_id (JObj kvs) = map_of kvs ''id''"
| "record_id _ = None"

definition record_ids :: "json list \<Rightarrow> json list" where
  "record_ids xs = List.map_filter record_id xs"

text \<open>A record that the id filter of the loop lets through.\<close>

definition is_new :: "json list \<Rightarrow> json \<Rightarrow> bool" where
  "is_new ids x = (case record_id x of Some i \<Rightarrow> \<not> py_in i ids | None \<Rightarrow> True)"

text \<open>The normalized records of the fetched activities, in order: one for each activity
  that \<open>activity_to_dict\<close> converts.\<close>

definition normalized_record :: "activity \<Rightarrow> json option" where
  "normalized_record a = (case activity_to_dict a of Inr d \<Rightarrow> Some (JObj d) | Inl e \<Rightarrow> None)"

definition normalized_records :: "activity list \<Rightarrow> json list" where
  "normalized_records acts = List.map_filter normalized_record acts"

text \<open>A stored record that is a JSON object and is well formed but for missing keys: its
  \<open>id\<close>, if it has one, is a number, a string or null, and its \<open>start_date_local\<close>, if it
  has one, is a string.\<close>

fun tolerated_record :: "json \<Rightarrow> bool" where
  "tolerated_record (JObj kvs) =
     ((case map_of kvs ''id'' of None \<Rightarrow> True | Some v \<Rightarrow> hashable v) \<and>
      (case map_of kvs ''start_date_local'' of None \<Rightarrow> True | Some v \<Rightarrow> is_str v))"
| "tolerated_record _ = False"

fun lacks_key :: "string \<Rightarrow> json \<Rightarrow> bool" where
  "lacks_key k (JObj kvs) = (map_of kvs k = None)"
| "lacks_key k _ = False"

text \<open>
  Reading the credentials file back as \<open>KEY=VALUE\<close> lines: the key of a line is what
  precedes its first \<open>=\<close>, the value what follows it up to the end of the line; the value
  of a key is that of the last line with the key.
\<close>

definition line_key :: "string \<Rightarrow> string option" where
  "line_key l = (if CHR ''='' \<in> set l then Some (takeWhile (\<lambda>c. c \<noteq> CHR ''='') l) else None)"

definition line_value :: "string \<Rightarrow> string" where
  "line_value l = takeWhile (\<lambda>c. c \<noteq> newline) (tl (dropWhile (\<lambda>c. c \<noteq> CHR ''='') l))"

definition read_env :: "string \<Rightarrow> string \<Rightarrow> string option" where
  "read_env text key = (case filter (\<lambda>l. line_key l = Some key) (readlines text) of
      [] \<Rightarrow> None
    | l # ls \<Rightarrow> Some (line_value (last (l # ls))))"

definition token_line :: "string \<Rightarrow> bool" where
  "token_line l = (prefix ''ACCESS_TOKEN='' l \<or> prefix ''REFRESH_TOKEN='' l)"

definition ends_with_newline :: "string \<Rightarrow> bool" where
  "ends_with_newline text = (text = [] \<or> last text = newline)"

text \<open>
  What the loop of \<open>update_env_file\<close> does to one line, the lines it writes, and a line as
  \<open>readlines\<close> gives it when the text ends with a newline.
\<close>

definition rewrite_line :: "token_response \<Rightarrow> string \<Rightarrow> string" where
  "rewrite_line t line =
     (if prefix ''ACCESS_TOKEN='' line then access_line t
      else if prefix ''REFRESH_TOKEN='' line then refresh_line t
      else line)"

definition updated_lines :: "token_response \<Rightarrow> string list \<Rightarrow> string list" where
  "updated_lines t lines =
     map (rewrite_line t) lines
     @ (if \<exists>l \<in> set lines. prefix ''ACCESS_TOKEN='' l then [] else [access_line t])
     @ (if \<exists>l \<in> set lines. prefix ''REFRESH_TOKEN='' l then [] else [refresh_line t])"

definition proper_line :: "string \<Rightarrow> bool" where
  "proper_line l = (l \<noteq> [] \<and> last l = newline \<and> newline \<notin> set (butlast l))"

subsection \<open>Sample inputs\<close>

text \<open>A Python \<open>int\<close> with its decimal text, a \<open>str\<close> that is not a numeral, and a
  \<open>datetime\<close> with its text.\<close>

definition int_obj :: "int \<Rightarrow> string \<Rightarrow> pyval" where
  "int_obj n txt = PObj (Inr (n \<noteq> 0)) (Inr n) (Inr (of_int n)) (Inr txt)"

definition str_obj :: "string \<Rightarrow> pyval" where
  "str_obj s = PObj (Inr (s \<noteq> [])) (Inl ValueError) (Inl ValueError) (Inr s)"

definition datetime_obj :: "string \<Rightarrow> pyval" where
  "datetime_obj s = PObj (Inr True) (Inl TypeError) (Inl TypeError) (Inr s)"

text \<open>A non-zero \<open>timedelta\<close> with its text (\<open>int()\<close> rejects it), the \<open>int\<close> \<open>10 ** 400\<close>
  (too large for \<open>float()\<close>, which raises \<open>OverflowError\<close>), and a \<open>float\<close> with its text.\<close>

definition timedelta_obj :: "string \<Rightarrow> pyval" where
  "timedelta_obj txt = PObj (Inr True) (Inl TypeError) (Inl TypeError) (Inr txt)"

definition huge_int_obj :: pyval where
  "huge_int_obj =
     PObj (Inr True) (Inr (10 ^ 400)) (Inl OtherError) (Inr (CHR ''1'' # replicate 400 (CHR ''0'')))"

definition float_obj :: "rat \<Rightarrow> string \<Rightarrow> pyval" where
  "float_obj r txt =
     PObj (Inr (r \<noteq> 0)) (Inr (if 0 \<le> r then \<lfloor>r\<rfloor> else \<lceil>r\<rceil>)) (Inr r) (Inr txt)"

text \<open>An activity with the four required attributes and no other.\<close>

definition ride :: "int \<Rightarrow> string \<Rightarrow> string \<Rightarrow> activity" where
  "ride n txt date = map_of
     [(''id'', int_obj n txt), (''name'', str_obj ''Ride''),
      (''start_date_local'', datetime_obj date), (''type'', str_obj ''Ride'')]"

definition ride_dict :: "int \<Rightarrow> string \<Rightarrow> (string \<times> json) list" where
  "ride_dict n date =
     [(''id'', JInt n), (''name'', JStr ''Ride''), (''start_date_local'', JStr date),
      (''type'', JStr ''Ride''), (''distance'', JFloat 0), (''moving_time'', JInt 0),
      (''elapsed_time'', JInt 0), (''total_elevation_gain'', JNull), (''average_speed'', JNull),
      (''max_speed'', JNull), (''average_heartrate'', JNull), (''max_heartrate'', JNull),
      (''average_cadence'', JNull), (''average_watts'', JNull), (''calories'', JNull),
      (''kudos_count'', JInt 0), (''achievement_count'', JInt 0), (''athlete_count'', JInt 0),
      (''gear_id'', JNull), (''device_name'', JNull), (''private'', JBool False),
      (''commute'', JBool False)]"

text \<open>The record of core keys only, and activities with further attributes.\<close>

definition minimal_ride_dict :: "int \<Rightarrow> string \<Rightarrow> (string \<times> json) list" where
  "minimal_ride_dict n date =
     [(''id'', JInt n), (''name'', JStr ''Ride''), (''start_date_local'', JStr date),
      (''type'', JStr ''Ride''), (''distance'', JFloat 0), (''moving_time'', JInt 0),
      (''elapsed_time'', JInt 0)]"

definition partial_ride :: activity where
  "partial_ride = (ride 7 ''7'' ''2024-03-05'')
     (''average_heartrate'' \<mapsto> str_obj ''n/a'', ''kudos_count'' \<mapsto> PNone,
      ''calories'' \<mapsto> float_obj (1025 / 2) ''512.5'')"

definition partial_ride_dict :: "(string \<times> json) list" where
  "partial_ride_dict =
     [(''id'', JInt 7), (''name'', JStr ''Ride''), (''start_date_local'', JStr ''2024-03-05''),
      (''type'', JStr ''Ride''), (''distance'', JFloat 0), (''moving_time'', JInt 0),
      (''elapsed_time'', JInt 0), (''total_elevation_gain'', JNull), (''average_speed'', JNull),
      (''max_speed'', JNull), (''average_heartrate'', JNull), (''max_heartrate'', JNull),
      (''average_cadence'', JNull), (''average_watts'', JNull), (''calories'', JFloat (1025 / 2)),
      (''kudos_count'', JInt 0), (''achievement_count'', JInt 0), (''athlete_count'', JInt 0),
      (''gear_id'', JNull), (''device_name'', JNull), (''private'', JBool False),
      (''commute'', JBool False)]"

definition timed_ride :: activity where
  "timed_ride = (ride 7 ''7'' ''2024-03-05'')(''moving_time'' \<mapsto> timedelta_obj ''1:00:00'')"

definition overflow_ride :: activity where
  "overflow_ride = (ride 8 ''8'' ''2024-03-06'')(''calories'' \<mapsto> huge_int_obj)"

section \<open>Auxiliary facts\<close>

subsection \<open>Normalisation and the loop over the fetched activities\<close>

lemma and_then_simps [simp]:
  "and_then (Inl e) f = Inl e"
  "and_then (Inr x) f = f x"
  by (simp_all add: and_then_def)

lemma and_then_eq_Inr: "and_then m f = Inr y \<longleftrightarrow> (\<exists>x. m = Inr x \<and> f x = Inr y)"
  by (cases m) simp_all

lemma map_of_dict_set: "map_of (dict_set r k v) k' = (if k' = k then Some v else map_of r k')"
  by (induction r k v rule: dict_set.induct) auto

lemma set_properties_other:
  "set_properties prop a keys r = Inr r' \<Longrightarrow> k \<notin> set keys \<Longrightarrow> map_of r' k = map_of r k"
  by (induction keys arbitrary: r) (auto simp: and_then_eq_Inr map_of_dict_set)

lemma required_int_Inr: "required_int a k = Inr v \<Longrightarrow> \<exists>i. v = JInt i"
  by (auto simp: required_int_def and_then_eq_Inr)

lemma required_str_Inr: "required_str a k = Inr v \<Longrightarrow> \<exists>s. v = JStr s"
  by (auto simp: required_str_def and_then_eq_Inr)

lemma base_properties_shape:
  "base_properties a = Inr r \<Longrightarrow>
     \<exists>i s. map_of r ''id'' = Some (JInt i) \<and> map_of r ''start_date_local'' = Some (JStr s)"
  unfolding base_properties_def and_then_eq_Inr
  by (auto dest!: required_int_Inr required_str_Inr)

lemma full_dict_keeps:
  assumes "full_dict a = Inr r" and "base_properties a = Inr r0"
    and "k \<notin> set (float_properties @ int_properties @ str_properties @ bool_properties)"
  shows "map_of r k = map_of r0 k"
proof -
  from assms(1,2) obtain r1 r2 r3 where
    1: "set_properties float_property a float_properties r0 = Inr r1" and
    2: "set_properties int_property a int_properties r1 = Inr r2" and
    3: "set_properties str_property a str_properties r2 = Inr r3" and
    4: "set_properties bool_property a bool_properties r3 = Inr r"
    by (auto simp: full_dict_def and_then_eq_Inr)
  from assms(3) show ?thesis
    using set_properties_other [OF 1, of k] set_properties_other [OF 2, of k]
      set_properties_other [OF 3, of k] set_properties_other [OF 4, of k]
    by simp
qed

lemma full_dict_shape:
  assumes "full_dict a = Inr r"
  shows "\<exists>i s. map_of r ''id'' = Some (JInt i) \<and> map_of r ''start_date_local'' = Some (JStr s)"
proof -
  from assms obtain r0 where b: "base_properties a = Inr r0"
    by (auto simp: full_dict_def and_then_eq_Inr)
  have "map_of r ''id'' = map_of r0 ''id''"
    by (rule full_dict_keeps [OF assms b])
      (simp add: float_properties_def int_properties_def str_properties_def bool_properties_def)
  moreover have "map_of r ''start_date_local'' = map_of r0 ''start_date_local''"
    by (rule full_dict_keeps [OF assms b])
      (simp add: float_properties_def int_properties_def str_properties_def bool_properties_def)
  ultimately show ?thesis using base_properties_shape [OF b] by simp
qed

lemma minimal_dict_shape:
  "minimal_dict a = Inr r \<Longrightarrow>
     \<exists>i s. map_of r ''id'' = Some (JInt i) \<and> map_of r ''start_date_local'' = Some (JStr s)"
  unfolding minimal_dict_def and_then_eq_Inr
  by (auto dest!: required_int_Inr required_str_Inr)

lemma activity_to_dict_shape:
  "activity_to_dict a = Inr r \<Longrightarrow>
     \<exists>i s. map_of r ''id'' = Some (JInt i) \<and> map_of r ''start_date_local'' = Some (JStr s)"
  by (auto simp: activity_to_dict_def split: sum.splits
      dest: full_dict_shape minimal_dict_shape)

lemma process_activity_Some:
  assumes "process_activity ids a = Inr (Some x)"
  shows "\<exists>d i s. x = JObj d \<and> activity_to_dict a = Inr d \<and> map_of d ''id'' = Some (JInt i)
      \<and> \<not> py_in (JInt i) ids \<and> map_of d ''start_date_local'' = Some (JStr s)"
proof -
  from assms obtain d j where d: "activity_to_dict a = Inr d" and j: "dict_item d ''id'' = Inr j"
    and x: "(if \<not> py_in j ids then Some (JObj d) else None) = Some x"
    by (auto simp: process_activity_def and_then_eq_Inr)
  from activity_to_dict_shape [OF d] obtain i s where
    "map_of d ''id'' = Some (JInt i)" "map_of d ''start_date_local'' = Some (JStr s)" by blast
  with d j x show ?thesis by (auto simp: dict_item_def split: if_splits)
qed

lemma process_activity_None:
  assumes "process_activity ids a = Inr None"
  shows "\<exists>d i. activity_to_dict a = Inr d \<and> map_of d ''id'' = Some (JInt i) \<and> py_in (JInt i) ids"
proof -
  from assms obtain d j where d: "activity_to_dict a = Inr d" and j: "dict_item d ''id'' = Inr j"
    and x: "(if \<not> py_in j ids then Some (JObj d) else None) = None"
    by (auto simp: process_activity_def and_then_eq_Inr)
  from activity_to_dict_shape [OF d] obtain i s where
    "map_of d ''id'' = Some (JInt i)" by blast
  with d j x show ?thesis by (auto simp: dict_item_def split: if_splits)
qed

lemma process_activity_Inl:
  "process_activity ids a = Inl e \<Longrightarrow> activity_to_dict a = Inl e"
  by (auto simp: process_activity_def and_then_def dict_item_def split: sum.splits option.splits
      dest: activity_to_dict_shape)

lemma collect_new_members:
  "collect_new ids acts = Inr new \<Longrightarrow> x \<in> set new \<Longrightarrow>
     \<exists>a d i s. a \<in> set acts \<and> x = JObj d \<and> activity_to_dict a = Inr d \<and> map_of d ''id'' = Some (JInt i)
      \<and> \<not> py_in (JInt i) ids \<and> map_of d ''start_date_local'' = Some (JStr s)"
proof (induction acts arbitrary: new)
  case Nil
  then show ?case by simp
next
  case (Cons a acts)
  show ?case
  proof (cases "process_activity ids a")
    case (Inl e)
    with Cons.prems(1) have "collect_new ids acts = Inr new"
      by (auto simp: and_then_eq_Inr)
    from Cons.IH [OF this Cons.prems(2)] show ?thesis by auto
  next
    case (Inr r)
    with Cons.prems(1) obtain new' where
      n: "collect_new ids acts = Inr new'" and
      e: "new = (case r of None \<Rightarrow> new' | Some d \<Rightarrow> d # new')"
      by (auto simp: and_then_eq_Inr)
    show ?thesis
    proof (cases r)
      case None
      with e Cons.prems(2) have "x \<in> set new'" by simp
      from Cons.IH [OF n this] show ?thesis by auto
    next
      case (Some y)
      with e Cons.prems(2) consider "x = y" | "x \<in> set new'" by auto
      then show ?thesis
      proof cases
        case 1
        from Inr Some have "process_activity ids a = Inr (Some y)" by simp
        from process_activity_Some [OF this] 1 show ?thesis by auto
      next
        case 2
        from Cons.IH [OF n this] show ?thesis by auto
      qed
    qed
  qed
qed


subsection \<open>Sorting and merging\<close>

lemma collect_map_Inr:
  "collect (map f xs) = Inr ks \<Longrightarrow> list_all2 (\<lambda>x k. f x = Inr k) xs ks"
  by (induction xs arbitrary: ks) (auto simp: and_then_eq_Inr)

lemma collect_map_total:
  "\<forall>x \<in> set xs. \<exists>k. f x = Inr k \<Longrightarrow> \<exists>ks. collect (map f xs) = Inr ks"
  by (induction xs) auto

lemma is_str_iff: "is_str k \<longleftrightarrow> (\<exists>s. k = JStr s)"
  by (cases k) simp_all

lemma keys_all_str:
  assumes "list_all2 (\<lambda>x k. get_start_date x = Inr k) xs ks"
  shows "(\<forall>k \<in> set ks. is_str k) \<longleftrightarrow> (\<forall>x \<in> set xs. str_keyed x)"
  using assms by (induction rule: list_all2_induct) (auto simp: str_keyed_def is_str_iff)

lemma keys_some_str:
  assumes "list_all2 (\<lambda>x k. get_start_date x = Inr k) xs ks"
  shows "(\<exists>k \<in> set ks. is_str k) \<longleftrightarrow> (\<exists>x \<in> set xs. str_keyed x)"
  using assms by (induction rule: list_all2_induct) (auto simp: str_keyed_def is_str_iff)

lemma sort_key_short: "length xs \<le> 1 \<Longrightarrow> sort_key f xs = xs"
  by (cases xs) auto

lemma sort_Sorted_str:
  assumes "sort_by_start_date xs = Sorted ys" and "\<exists>x \<in> set xs. str_keyed x"
  shows "(\<forall>x \<in> set xs. str_keyed x) \<and> ys = sort_key start_date_str xs"
proof -
  from assms(1) obtain ks where ks: "collect (map get_start_date xs) = Inr ks"
    by (auto simp: sort_by_start_date_def split: sum.splits)
  note rel = collect_map_Inr [OF ks]
  show ?thesis
  proof (cases "length xs \<le> 1")
    case True
    with assms(2) have "\<forall>x \<in> set xs. str_keyed x"
      by (cases xs) auto
    moreover from True assms(1) ks have "ys = xs"
      by (simp add: sort_by_start_date_def)
    ultimately show ?thesis using True by (simp add: sort_key_short)
  next
    case False
    from assms(2) have some: "\<exists>k \<in> set ks. is_str k"
      by (simp add: keys_some_str [OF rel])
    show ?thesis
    proof (cases "\<forall>k \<in> set ks. is_str k")
      case True
      with False assms(1) ks show ?thesis
        by (simp add: sort_by_start_date_def keys_all_str [OF rel, symmetric])
    next
      case all: False
      with False some assms(1) ks show ?thesis
        by (simp add: sort_by_start_date_def)
    qed
  qed
qed

lemma str_keyed_total: "str_keyed x \<Longrightarrow> \<exists>k. get_start_date x = Inr k"
  by (auto simp: str_keyed_def)

lemma sort_all_str:
  assumes "\<forall>x \<in> set xs. str_keyed x"
  shows "sort_by_start_date xs = Sorted (sort_key start_date_str xs)"
proof -
  from assms have "\<forall>x \<in> set xs. \<exists>k. get_start_date x = Inr k"
    by (auto dest: str_keyed_total)
  from collect_map_total [OF this] obtain ks where
    ks: "collect (map get_start_date xs) = Inr ks" by blast
  from assms have "\<forall>k \<in> set ks. is_str k"
    by (simp add: keys_all_str [OF collect_map_Inr [OF ks]])
  with ks show ?thesis
    by (simp add: sort_by_start_date_def sort_key_short)
qed

lemma sort_determined:
  assumes "\<exists>x \<in> set xs. str_keyed x"
  shows "sort_by_start_date xs \<noteq> Sort_order_dependent"
proof (cases "collect (map get_start_date xs)")
  case (Inl e)
  then show ?thesis by (simp add: sort_by_start_date_def)
next
  case (Inr ks)
  from assms have "\<exists>k \<in> set ks. is_str k"
    by (simp add: keys_some_str [OF collect_map_Inr [OF Inr]])
  with Inr show ?thesis by (simp add: sort_by_start_date_def)
qed

lemma normalized_str_keyed:
  "map_of d ''start_date_local'' = Some (JStr s) \<Longrightarrow> str_keyed (JObj d)"
  by (simp add: str_keyed_def)

lemma collect_new_str_keyed:
  "collect_new ids acts = Inr new \<Longrightarrow> x \<in> set new \<Longrightarrow> str_keyed x"
  by (auto dest!: collect_new_members intro: normalized_str_keyed)

lemma merge_full_refresh:
  "merge_activities True f acts = (case collect_new [] acts of
      Inl e \<Rightarrow> Aborted e
    | Inr new \<Rightarrow> Wrote (sort_key start_date_str new))"
proof (cases "collect_new [] acts")
  case (Inl e)
  then show ?thesis by (simp add: merge_activities_def)
next
  case (Inr new)
  then have "\<forall>x \<in> set new. str_keyed x"
    by (auto dest: collect_new_str_keyed)
  from sort_all_str [OF this] Inr show ?thesis
    by (simp add: merge_activities_def)
qed

lemma merge_incremental:
  "merge_activities False f acts = (case load_existing_activities f of
      Inl e \<Rightarrow> Aborted e
    | Inr existing \<Rightarrow> (case existing_ids existing of
        Inl e \<Rightarrow> Aborted e
      | Inr ids \<Rightarrow> (case collect_new ids acts of
          Inl e \<Rightarrow> Aborted e
        | Inr new \<Rightarrow>
            if new \<noteq> [] then
              (case py_concat existing new of
                  Inl e \<Rightarrow> Aborted e
                | Inr u \<Rightarrow> (case sort_by_start_date u of
                      Sorted ys \<Rightarrow> Wrote ys
                    | Sort_raised e \<Rightarrow> Aborted e
                    | Sort_order_dependent \<Rightarrow> Undetermined))
            else No_write)))"
  by (simp add: merge_activities_def split: sum.splits)

lemma py_concat_Inr: "py_concat v new = Inr u \<Longrightarrow> \<exists>xs. v = JArr xs \<and> u = xs @ new"
  by (cases v) auto

lemma merge_incremental_Wrote:
  assumes "merge_activities False f acts = Wrote ys"
  shows "\<exists>xs ids new. load_existing_activities f = Inr (JArr xs) \<and> collect_ids xs = Inr ids
     \<and> collect_new ids acts = Inr new \<and> new \<noteq> [] \<and> (\<forall>x \<in> set xs. str_keyed x)
     \<and> ys = sort_key start_date_str (xs @ new)"
proof -
  from assms obtain existing where ex: "load_existing_activities f = Inr existing"
    by (auto simp: merge_incremental split: sum.splits)
  with assms obtain ids where ids: "existing_ids existing = Inr ids"
    by (auto simp: merge_incremental split: sum.splits)
  with assms ex obtain new where new: "collect_new ids acts = Inr new"
    by (auto simp: merge_incremental split: sum.splits)
  with assms ex ids have ne: "new \<noteq> []"
    by (auto simp: merge_incremental split: if_splits)
  with assms ex ids new obtain u where u: "py_concat existing new = Inr u"
    by (auto simp: merge_incremental split: sum.splits)
  from py_concat_Inr [OF this] ex obtain xs where e: "existing = JArr xs"
    and xs: "load_existing_activities f = Inr (JArr xs)" and ux: "u = xs @ new" by auto
  from assms ex ids new ne u have srt: "sort_by_start_date u = Sorted ys"
    by (auto simp: merge_incremental split: sort_outcome.splits)
  from ne obtain x where "x \<in> set new" by (cases new) auto
  with new ux have "\<exists>x \<in> set u. str_keyed x"
    by (auto dest: collect_new_str_keyed)
  from sort_Sorted_str [OF srt this] ux have
    "\<forall>x \<in> set xs. str_keyed x" "ys = sort_key start_date_str (xs @ new)" by auto
  moreover from ids e have "collect_ids xs = Inr ids"
    by (simp add: existing_ids_def)
  ultimately show ?thesis using xs new ne by blast
qed

lemma merge_determined: "merge_activities full f acts \<noteq> Undetermined"
proof (cases full)
  case True
  then show ?thesis by (simp add: merge_full_refresh split: sum.splits)
next
  case False
  show ?thesis
  proof
    assume "merge_activities full f acts = Undetermined"
    with False have a: "merge_activities False f acts = Undetermined" by simp
    from a obtain existing where ex: "load_existing_activities f = Inr existing"
      by (auto simp: merge_incremental split: sum.splits)
    with a obtain ids where ids: "existing_ids existing = Inr ids"
      by (auto simp: merge_incremental split: sum.splits)
    with a ex obtain new where new: "collect_new ids acts = Inr new"
      by (auto simp: merge_incremental split: sum.splits)
    with a ex ids have ne: "new \<noteq> []"
      by (auto simp: merge_incremental split: if_splits)
    with a ex ids new obtain u where u: "py_concat existing new = Inr u"
      by (auto simp: merge_incremental split: sum.splits)
    from py_concat_Inr [OF this] obtain xs where ux: "u = xs @ new" by blast
    from a ex ids new ne u have srt: "sort_by_start_date u = Sort_order_dependent"
      by (auto simp: merge_incremental split: sort_outcome.splits)
    from ne obtain x where "x \<in> set new" by (cases new) auto
    with new ux have "\<exists>x \<in> set u. str_keyed x"
      by (auto dest: collect_new_str_keyed)
    from sort_determined [OF this] srt show False by simp
  qed
qed

subsection \<open>Sample runs\<close>

lemma ride_normalized: "activity_to_dict (ride n txt date) = Inr (ride_dict n date)"
  by (simp add: activity_to_dict_def full_dict_def base_properties_def required_int_def
      required_str_def base_float_def base_int_def getattr_def ride_def int_obj_def str_obj_def
      datetime_obj_def float_properties_def int_properties_def str_properties_def
      bool_properties_def float_property_def int_property_def str_property_def
      bool_property_def optional_property_def ride_dict_def)

lemma scenario_two_rides:
  "merge_activities False Missing [ride 10 ''10'' ''2024-01-02'', ride 11 ''11'' ''2024-01-01'']
   = Wrote [JObj (ride_dict 11 ''2024-01-01''), JObj (ride_dict 10 ''2024-01-02'')]"
  by (simp add: merge_incremental existing_ids_def process_activity_def ride_normalized
    dict_item_def ride_dict_def py_in_def sort_by_start_date_def start_date_str_def)

subsection \<open>The new activities as a filter\<close>

lemma process_activity_eq:
  "process_activity ids a = (case activity_to_dict a of
      Inl e \<Rightarrow> Inl e
    | Inr d \<Rightarrow> Inr (if is_new ids (JObj d) then Some (JObj d) else None))"
proof (cases "activity_to_dict a")
  case (Inl e)
  then show ?thesis by (simp add: process_activity_def)
next
  case (Inr d)
  from activity_to_dict_shape [OF this] obtain i where "map_of d ''id'' = Some (JInt i)" by blast
  with Inr show ?thesis
    by (simp add: process_activity_def dict_item_def is_new_def)
qed

lemma collect_new_filter:
  "collect_new ids acts = Inr new \<Longrightarrow> new = filter (is_new ids) (normalized_records acts)"
proof (induction acts arbitrary: new)
  case Nil
  then show ?case by (simp add: normalized_records_def map_filter_simps)
next
  case (Cons a acts)
  show ?case
  proof (cases "activity_to_dict a")
    case (Inl e)
    with Cons.prems have "collect_new ids acts = Inr new"
      by (auto simp: process_activity_eq and_then_eq_Inr)
    from Cons.IH [OF this] Inl show ?thesis
      by (simp add: normalized_records_def map_filter_simps normalized_record_def)
  next
    case (Inr d)
    with Cons.prems obtain new' where n: "collect_new ids acts = Inr new'"
      and e: "new = (if is_new ids (JObj d) then JObj d # new' else new')"
      by (auto simp: process_activity_eq and_then_eq_Inr split: if_splits)
    from Cons.IH [OF n] e Inr show ?thesis
      by (simp add: normalized_records_def map_filter_simps normalized_record_def)
  qed
qed

lemma collect_new_total:
  "\<forall>a \<in> set acts. \<exists>s. format_id a = Inr s \<Longrightarrow> \<exists>new. collect_new ids acts = Inr new"
proof (induction acts)
  case Nil
  then show ?case by simp
next
  case (Cons a acts)
  then obtain new s where "collect_new ids acts = Inr new" "format_id a = Inr s" by auto
  then show ?case
    by (cases "activity_to_dict a") (simp_all add: process_activity_eq)
qed

lemma is_new_empty: "is_new [] x"
  by (simp add: is_new_def py_in_def split: option.splits)

lemma format_id_ride: "format_id (ride n txt date) = Inr txt"
  by (simp add: format_id_def getattr_def ride_def int_obj_def)

subsection \<open>Ids of stored records and the second run\<close>

lemma py_eq_refl: "py_eq a a"
  by (simp add: py_eq_def split: option.splits)

lemma py_in_member: "a \<in> set s \<Longrightarrow> py_in a s"
  by (auto simp: py_in_def intro: py_eq_refl)

lemma py_in_mono: "py_in a s \<Longrightarrow> set s \<subseteq> set t \<Longrightarrow> py_in a t"
  by (auto simp: py_in_def)

lemma record_ids_Nil: "record_ids [] = []"
  by (simp add: record_ids_def map_filter_simps)

lemma record_ids_Cons:
  "record_ids (x # xs) = (case record_id x of None \<Rightarrow> record_ids xs | Some i \<Rightarrow> i # record_ids xs)"
  by (simp add: record_ids_def map_filter_simps split: option.splits)

lemma record_ids_append: "record_ids (xs @ ys) = record_ids xs @ record_ids ys"
  by (induction xs) (simp_all add: record_ids_Nil record_ids_Cons split: option.splits)

lemma set_record_ids: "set (record_ids xs) = {i. \<exists>x \<in> set xs. record_id x = Some i}"
  by (induction xs) (auto simp: record_ids_Nil record_ids_Cons split: option.splits)

lemma mset_record_ids: "mset xs = mset ys \<Longrightarrow> mset (record_ids xs) = mset (record_ids ys)"
  by (simp add: record_ids_def map_filter_def)

lemma record_ids_sort: "mset (record_ids (sort_key f xs)) = mset (record_ids xs)"
  by (rule mset_record_ids) simp

lemma collect_ids_Inr: "collect_ids xs = Inr ids \<Longrightarrow> ids = record_ids xs"
proof (induction xs arbitrary: ids)
  case Nil
  then show ?case by (simp add: record_ids_Nil)
next
  case (Cons x xs)
  then show ?case
    by (cases x)
      (auto simp: record_ids_Cons and_then_eq_Inr split: if_splits option.splits)
qed

lemma second_run_no_write:
  assumes "merge_activities False f acts = Wrote ys"
  shows "merge_activities False (Json (JArr ys)) acts \<noteq> Wrote zs"
proof
  assume 2: "merge_activities False (Json (JArr ys)) acts = Wrote zs"
  from merge_incremental_Wrote [OF assms] obtain xs ids new where
    ids: "collect_ids xs = Inr ids" and new: "collect_new ids acts = Inr new"
    and ys: "ys = sort_key start_date_str (xs @ new)" by blast
  from merge_incremental_Wrote [OF 2] obtain ids' new' where
    ids': "collect_ids ys = Inr ids'" and new': "collect_new ids' acts = Inr new'"
    and ne: "new' \<noteq> []" by auto
  have i1: "ids = record_ids xs" by (rule collect_ids_Inr [OF ids])
  have i2: "ids' = record_ids ys" by (rule collect_ids_Inr [OF ids'])
  have s: "set ids' = set (record_ids xs) \<union> set (record_ids new)"
    unfolding i2 ys using record_ids_sort [of start_date_str "xs @ new", THEN mset_eq_setD]
    by (simp add: record_ids_append)
  have n1: "new = filter (is_new ids) (normalized_records acts)"
    by (rule collect_new_filter [OF new])
  have n2: "new' = filter (is_new ids') (normalized_records acts)"
    by (rule collect_new_filter [OF new'])
  have "\<not> is_new ids' x" if x: "x \<in> set (normalized_records acts)" for x
  proof (cases "is_new ids x")
    case True
    with x n1 have xn: "x \<in> set new" by simp
    show ?thesis
    proof (cases "record_id x")
      case None
      from x obtain a d where "x = JObj d" "activity_to_dict a = Inr d"
        by (auto simp: normalized_records_def map_filter_def normalized_record_def
            split: sum.splits)
      with activity_to_dict_shape [of a d] None show ?thesis by auto
    next
      case (Some i)
      with xn have "i \<in> set (record_ids new)" by (auto simp: set_record_ids)
      with s have "py_in i ids'" by (auto intro: py_in_member)
      with Some show ?thesis by (simp add: is_new_def)
    qed
  next
    case False
    then obtain i where i: "record_id x = Some i" "py_in i ids"
      by (auto simp: is_new_def split: option.splits)
    from s i1 have "set ids \<subseteq> set ids'" by simp
    with i have "py_in i ids'" by (auto intro: py_in_mono)
    with i show ?thesis by (simp add: is_new_def)
  qed
  with n2 have "new' = []" by (simp add: filter_empty_conv)
  with ne show False by simp
qed

lemma distinct_record_ids_filter:
  "distinct (record_ids xs) \<Longrightarrow> distinct (record_ids (filter P xs))"
proof (induction xs)
  case Nil
  then show ?case by simp
next
  case (Cons x xs)
  have "set (record_ids (filter P xs)) \<subseteq> set (record_ids xs)"
    by (auto simp: set_record_ids)
  with Cons show ?case
    by (auto simp: record_ids_Cons split: option.splits)
qed

lemma distinct_record_ids_sort:
  "distinct (record_ids (sort_key f xs)) \<longleftrightarrow> distinct (record_ids xs)"
  by (rule mset_eq_imp_distinct_iff) (rule record_ids_sort)

lemma is_new_not_member:
  "is_new ids x \<Longrightarrow> record_id x = Some i \<Longrightarrow> i \<notin> set ids"
  by (auto simp: is_new_def dest: py_in_member)

lemma ride_dict_id: "map_of (ride_dict n d) ''id'' = Some (JInt n)"
  by (simp add: ride_dict_def)

subsection \<open>Stored records with missing keys\<close>

lemma tolerated_iff:
  "tolerated_record x \<longleftrightarrow> (\<exists>kvs. x = JObj kvs
     \<and> (\<forall>v. map_of kvs ''id'' = Some v \<longrightarrow> hashable v)
     \<and> (\<forall>v. map_of kvs ''start_date_local'' = Some v \<longrightarrow> is_str v))"
  by (cases x) (auto split: option.splits)

lemma tolerated_str_keyed: "tolerated_record x \<Longrightarrow> str_keyed x"
  by (auto simp: tolerated_iff str_keyed_def is_str_iff split: option.splits)

lemma collect_ids_tolerated:
  "\<forall>x \<in> set xs. tolerated_record x \<Longrightarrow> collect_ids xs = Inr (record_ids xs)"
proof (induction xs)
  case Nil
  then show ?case by (simp add: record_ids_Nil)
next
  case (Cons x xs)
  then have ih: "collect_ids xs = Inr (record_ids xs)" by simp
  from Cons.prems obtain kvs where x: "x = JObj kvs"
    and h: "\<forall>v. map_of kvs ''id'' = Some v \<longrightarrow> hashable v"
    by (auto simp: tolerated_iff)
  show ?case
  proof (cases "map_of kvs ''id''")
    case None
    with x ih show ?thesis by (simp add: record_ids_Cons)
  next
    case (Some v)
    with h have "hashable v" by simp
    with x ih Some show ?thesis by (simp add: record_ids_Cons)
  qed
qed

lemma record_ids_having_id:
  "record_ids (filter (\<lambda>x. \<not> lacks_key ''id'' x) xs) = record_ids xs"
proof (induction xs)
  case Nil
  then show ?case by simp
next
  case (Cons x xs)
  then show ?case by (cases x) (auto simp: record_ids_Cons split: option.splits)
qed

lemma lacks_start_date_key: "lacks_key ''start_date_local'' x \<Longrightarrow> start_date_str x = []"
  by (cases x) (simp_all add: start_date_str_def)

lemma string_le_Nil: "(s :: string) \<le> [] \<Longrightarrow> s = []"
  by (cases s) simp_all

lemma sorted_empty_first:
  assumes "sorted (map k ys)" and "i < length ys" and "j < length ys"
    and "k (ys ! i) = []" and "k (ys ! j) \<noteq> ([] :: string)"
  shows "i < j"
proof (rule ccontr)
  assume "\<not> i < j"
  then have "j \<le> i" by simp
  with assms(1,2) have "map k ys ! j \<le> map k ys ! i"
    by (simp add: sorted_iff_nth_mono)
  with assms(2,3,4) have "k (ys ! j) \<le> []" by simp
  with assms(5) show False by (auto dest: string_le_Nil)
qed

subsection \<open>The optional properties\<close>

lemma set_properties_value:
  "set_properties prop a keys r = Inr r' \<Longrightarrow> k \<in> set keys \<Longrightarrow>
     \<exists>v. prop a k = Inr v \<and> map_of r' k = Some v"
proof (induction keys arbitrary: r)
  case Nil
  then show ?case by simp
next
  case (Cons key keys)
  from Cons.prems(1) obtain v0 where v0: "prop a key = Inr v0"
    and rest: "set_properties prop a keys (dict_set r key v0) = Inr r'"
    by (auto simp: and_then_eq_Inr)
  show ?case
  proof (cases "k \<in> set keys")
    case True
    from Cons.IH [OF rest True] show ?thesis .
  next
    case False
    with Cons.prems(2) have "k = key" by simp
    with set_properties_other [OF rest False] v0 show ?thesis
      by (simp add: map_of_dict_set)
  qed
qed

lemma set_properties_total:
  "\<forall>k \<in> set keys. \<exists>v. prop a k = Inr v \<Longrightarrow> \<exists>r'. set_properties prop a keys r = Inr r'"
  by (induction keys arbitrary: r) auto

lemma optional_property_total:
  assumes "\<forall>v e. a k = Some v \<and> conv v = Inl e \<longrightarrow> caught e"
  shows "\<exists>j. optional_property conv dflt a k = Inr j"
  using assms
  by (auto simp: optional_property_def split: option.splits pyval.splits sum.splits)

lemma optional_property_default:
  assumes "optional_property conv dflt a k = Inr j"
    and "a k = None \<or> a k = Some PNone \<or> (\<exists>v e. a k = Some v \<and> conv v = Inl e)"
  shows "j = dflt"
  using assms
  by (auto simp: optional_property_def split: option.splits pyval.splits sum.splits if_splits)

lemma conv_Inl:
  "and_then m (\<lambda>x. Inr (f x)) = Inl e \<longleftrightarrow> m = Inl e"
  by (cases m) simp_all


lemma property_keys_disjoint:
  "k \<in> set float_properties \<Longrightarrow>
     k \<notin> set int_properties \<and> k \<notin> set str_properties \<and> k \<notin> set bool_properties"
  "k \<in> set int_properties \<Longrightarrow> k \<notin> set str_properties \<and> k \<notin> set bool_properties"
  "k \<in> set str_properties \<Longrightarrow> k \<notin> set bool_properties"
  by (auto simp: float_properties_def int_properties_def str_properties_def bool_properties_def)

lemma float_property_total:
  "\<forall>v e. a k = Some v \<and> py_float v = Inl e \<longrightarrow> caught e \<Longrightarrow> \<exists>j. float_property a k = Inr j"
  unfolding float_property_def by (rule optional_property_total) (simp add: conv_Inl)

lemma int_property_total:
  "\<forall>v e. a k = Some v \<and> py_int v = Inl e \<longrightarrow> caught e \<Longrightarrow> \<exists>j. int_property a k = Inr j"
  unfolding int_property_def by (rule optional_property_total) (simp add: conv_Inl)

lemma str_property_total:
  "\<forall>v e. a k = Some v \<and> py_str v = Inl e \<longrightarrow> caught e \<Longrightarrow> \<exists>j. str_property a k = Inr j"
  unfolding str_property_def by (rule optional_property_total) (simp add: conv_Inl)

lemma bool_property_total:
  "\<forall>v e. a k = Some v \<and> py_bool v = Inl e \<longrightarrow> caught e \<Longrightarrow> \<exists>j. bool_property a k = Inr j"
  unfolding bool_property_def by (rule optional_property_total) (simp add: conv_Inl)

lemma float_property_default:
  "float_property a k = Inr j \<Longrightarrow>
     a k = None \<or> a k = Some PNone \<or> (\<exists>v e. a k = Some v \<and> py_float v = Inl e) \<Longrightarrow> j = JNull"
  unfolding float_property_def by (erule optional_property_default) (simp add: conv_Inl)

lemma int_property_default:
  "int_property a k = Inr j \<Longrightarrow>
     a k = None \<or> a k = Some PNone \<or> (\<exists>v e. a k = Some v \<and> py_int v = Inl e) \<Longrightarrow> j = JInt 0"
  unfolding int_property_def by (erule optional_property_default) (simp add: conv_Inl)

lemma str_property_default:
  "str_property a k = Inr j \<Longrightarrow>
     a k = None \<or> a k = Some PNone \<or> (\<exists>v e. a k = Some v \<and> py_str v = Inl e) \<Longrightarrow> j = JNull"
  unfolding str_property_def by (erule optional_property_default) (simp add: conv_Inl)

lemma bool_property_default:
  "bool_property a k = Inr j \<Longrightarrow>
     a k = None \<or> a k = Some PNone \<or> (\<exists>v e. a k = Some v \<and> py_bool v = Inl e) \<Longrightarrow>
     j = JBool False"
  unfolding bool_property_def by (erule optional_property_default) (simp add: conv_Inl)

lemmas eval_normalise =
  activity_to_dict_def full_dict_def minimal_dict_def format_id_def base_properties_def
  required_int_def required_str_def base_float_def base_int_def getattr_def ride_def
  int_obj_def str_obj_def datetime_obj_def float_properties_def int_properties_def
  str_properties_def bool_properties_def float_property_def int_property_def
  str_property_def bool_property_def optional_property_def caught_def

lemma partial_ride_normalized: "activity_to_dict partial_ride = Inr partial_ride_dict"
  by (simp add: eval_normalise partial_ride_def partial_ride_dict_def float_obj_def)

lemma timed_ride_normalized:
  "activity_to_dict timed_ride = Inr (minimal_ride_dict 7 ''2024-03-05'')"
  by (simp add: eval_normalise timed_ride_def timedelta_obj_def minimal_ride_dict_def)

lemma overflow_ride_normalized:
  "activity_to_dict overflow_ride = Inr (minimal_ride_dict 8 ''2024-03-06'')"
  by (simp add: eval_normalise overflow_ride_def huge_int_obj_def minimal_ride_dict_def)

subsection \<open>The token\<close>

lemma get_token_failed:
  "refresh_access_token p = Inl e \<Longrightarrow> get_token cfg p env = (Inl ValueError, env)"
  by (simp add: get_token_def)

subsection \<open>The credentials file\<close>

lemma update_lines_eq:
  "update_lines t lines (new_lines, acc, ref) =
     (new_lines @ map (rewrite_line t) lines,
      acc \<or> (\<exists>l \<in> set lines. prefix ''ACCESS_TOKEN='' l),
      ref \<or> (\<exists>l \<in> set lines. prefix ''REFRESH_TOKEN='' l))"
proof (induction lines arbitrary: new_lines acc ref)
  case Nil
  then show ?case by simp
next
  case (Cons line lines)
  have "\<not> (prefix ''ACCESS_TOKEN='' line \<and> prefix ''REFRESH_TOKEN='' line)"
    by (auto simp: prefix_def)
  then show ?case
    by (auto simp: Cons.IH rewrite_line_def)
qed

lemma update_env_file_eq:
  "update_env_file t env =
     concat (updated_lines t (case env of Some text \<Rightarrow> readlines text | None \<Rightarrow> []))"
proof -
  define lines where "lines = (case env of Some text \<Rightarrow> readlines text | None \<Rightarrow> [])"
  have "update_lines t lines ([], False, False) =
      (map (rewrite_line t) lines, \<exists>l \<in> set lines. prefix ''ACCESS_TOKEN='' l,
       \<exists>l \<in> set lines. prefix ''REFRESH_TOKEN='' l)"
    by (simp add: update_lines_eq)
  then have "update_env_file t env = concat (updated_lines t lines)"
    unfolding update_env_file_def lines_def [symmetric]
    by (auto simp: writelines_def updated_lines_def Let_def)
  then show ?thesis by (simp add: lines_def)
qed

lemma lines_of_line:
  "newline \<notin> set b \<Longrightarrow> lines_of (b @ newline # rest) = (b @ [newline]) # lines_of rest"
  by (induction b) auto

lemma proper_lineE:
  assumes "proper_line l"
  obtains b where "l = b @ [newline]" and "newline \<notin> set b"
proof -
  from assms have "l = butlast l @ [newline]" "newline \<notin> set (butlast l)"
    by (auto simp: proper_line_def dest: append_butlast_last_id)
  then show ?thesis by (rule that)
qed

lemma lines_of_concat:
  "\<forall>l \<in> set ls. proper_line l \<Longrightarrow> lines_of (concat ls) = ls"
proof (induction ls)
  case Nil
  then show ?case by simp
next
  case (Cons l ls)
  then have "proper_line l" by simp
  then obtain b where b: "l = b @ [newline]" "newline \<notin> set b" by (rule proper_lineE)
  with Cons show ?case by (simp add: lines_of_line)
qed

lemma lines_of_Nil_iff: "lines_of s = [] \<longleftrightarrow> s = []"
  by (cases s) (auto split: list.splits)

lemma proper_line_Cons: "proper_line l \<Longrightarrow> c \<noteq> newline \<Longrightarrow> proper_line (c # l)"
  by (auto simp: proper_line_def)

lemma lines_of_proper:
  "ends_with_newline s \<Longrightarrow> l \<in> set (lines_of s) \<Longrightarrow> proper_line l"
proof (induction s arbitrary: l rule: lines_of.induct)
  case 1
  then show ?case by simp
next
  case (2 c cs)
  show ?case
  proof (cases "c = newline")
    case True
    from "2.prems"(1) have e: "ends_with_newline cs"
      by (auto simp: ends_with_newline_def split: if_splits)
    from True "2.prems"(2) consider "l = [c]" | "l \<in> set (lines_of cs)" by auto
    then show ?thesis
    proof cases
      case 1
      with True show ?thesis by (simp add: proper_line_def)
    next
      case 2
      from "2.IH"(1) [OF True e this] show ?thesis .
    qed
  next
    case False
    with "2.prems"(1) have ne: "cs \<noteq> []" and e: "ends_with_newline cs"
      by (auto simp: ends_with_newline_def split: if_splits)
    from ne obtain l' ls where r: "lines_of cs = l' # ls"
      by (cases "lines_of cs") (auto simp: lines_of_Nil_iff)
    with False "2.prems"(2) consider "l = c # l'" | "l \<in> set ls" by auto
    then show ?thesis
    proof cases
      case 1
      from "2.IH"(2) [OF False e, of l'] r have "proper_line l'" by simp
      with 1 False show ?thesis by (simp add: proper_line_Cons)
    next
      case 2
      with r have "l \<in> set (lines_of cs)" by simp
      from "2.IH"(2) [OF False e this] show ?thesis .
    qed
  qed
qed


lemma newline_neq_carriage_return:
  "newline \<noteq> carriage_return" "carriage_return \<noteq> newline"
  by (simp_all add: newline_def carriage_return_def)

lemma universal_newlines_Cons:
  "c \<noteq> carriage_return \<Longrightarrow> universal_newlines (c # cs) = c # universal_newlines cs"
  "carriage_return \<noteq> c \<Longrightarrow> universal_newlines (c # cs) = c # universal_newlines cs"
  by (cases cs; auto)+

lemma universal_newlines_free: "carriage_return \<notin> set (universal_newlines s)"
  by (induction s rule: universal_newlines.induct) (auto simp: newline_neq_carriage_return)

lemma universal_newlines_id: "carriage_return \<notin> set s \<Longrightarrow> universal_newlines s = s"
  by (induction s) (simp_all add: universal_newlines_Cons)

lemma readlines_no_carriage_return: "carriage_return \<notin> set s \<Longrightarrow> readlines s = lines_of s"
  by (simp add: readlines_def universal_newlines_id)

lemma concat_lines_of: "concat (lines_of s) = s"
  by (induction s) (auto simp: lines_of_Nil_iff split: list.splits)

lemma lines_of_chars: "l \<in> set (lines_of s) \<Longrightarrow> set l \<subseteq> set s"
proof -
  assume "l \<in> set (lines_of s)"
  then have "set l \<subseteq> set (concat (lines_of s))" by auto
  then show ?thesis by (simp add: concat_lines_of)
qed

lemma readlines_free: "l \<in> set (readlines s) \<Longrightarrow> carriage_return \<notin> set l"
  using lines_of_chars [of l "universal_newlines s"] universal_newlines_free [of s]
  by (auto simp: readlines_def)

lemma write_text_posix: "write_text [newline] s = s"
  by (induction s) (simp_all add: write_text_def)

lemma universal_newlines_write_text:
  "carriage_return \<notin> set s \<Longrightarrow>
     universal_newlines (write_text [carriage_return, newline] s) = s"
  by (induction s) (simp_all add: write_text_def universal_newlines_Cons)

lemma token_prefixes:
  "prefix ''ACCESS_TOKEN='' (access_line t)"
  "\<not> prefix ''REFRESH_TOKEN='' (access_line t)"
  "prefix ''REFRESH_TOKEN='' (refresh_line t)"
  "\<not> prefix ''ACCESS_TOKEN='' (refresh_line t)"
  by (simp_all add: access_line_def refresh_line_def)

lemma not_both_prefixes: "prefix ''ACCESS_TOKEN='' l \<Longrightarrow> \<not> prefix ''REFRESH_TOKEN='' l"
  by (auto simp: prefix_def)

lemma rewrite_line_prefix:
  "prefix ''ACCESS_TOKEN='' (rewrite_line t l) \<longleftrightarrow> prefix ''ACCESS_TOKEN='' l"
  "prefix ''REFRESH_TOKEN='' (rewrite_line t l) \<longleftrightarrow> prefix ''REFRESH_TOKEN='' l"
  by (auto simp: rewrite_line_def token_prefixes dest: not_both_prefixes)

lemma rewrite_line_cases:
  "prefix ''ACCESS_TOKEN='' l \<Longrightarrow> rewrite_line t l = access_line t"
  "prefix ''REFRESH_TOKEN='' l \<Longrightarrow> rewrite_line t l = refresh_line t"
  "\<not> token_line l \<Longrightarrow> rewrite_line t l = l"
  by (auto simp: rewrite_line_def token_line_def dest: not_both_prefixes)

lemma token_line_rewrite: "token_line (rewrite_line t l) \<longleftrightarrow> token_line l"
  by (simp add: token_line_def rewrite_line_prefix)

lemma filter_other_lines:
  "filter (\<lambda>l. \<not> token_line l) (updated_lines t lines) = filter (\<lambda>l. \<not> token_line l) lines"
proof -
  have "filter (\<lambda>l. \<not> token_line l) (map (rewrite_line t) lines)
      = filter (\<lambda>l. \<not> token_line l) lines"
    by (induction lines) (auto simp: token_line_rewrite rewrite_line_cases)
  then show ?thesis
    by (simp add: updated_lines_def token_line_def token_prefixes)
qed

lemma access_lines_updated:
  "filter (prefix ''ACCESS_TOKEN='') (updated_lines t lines) \<noteq> []"
  "l \<in> set (updated_lines t lines) \<Longrightarrow> prefix ''ACCESS_TOKEN='' l \<Longrightarrow> l = access_line t"
proof -
  show "filter (prefix ''ACCESS_TOKEN='') (updated_lines t lines) \<noteq> []"
    by (auto simp: updated_lines_def filter_empty_conv token_prefixes rewrite_line_prefix)
  assume "l \<in> set (updated_lines t lines)" "prefix ''ACCESS_TOKEN='' l"
  then show "l = access_line t"
    by (auto simp: updated_lines_def token_prefixes rewrite_line_prefix rewrite_line_cases
        split: if_splits)
qed

lemma refresh_lines_updated:
  "filter (prefix ''REFRESH_TOKEN='') (updated_lines t lines) \<noteq> []"
  "l \<in> set (updated_lines t lines) \<Longrightarrow> prefix ''REFRESH_TOKEN='' l \<Longrightarrow> l = refresh_line t"
proof -
  show "filter (prefix ''REFRESH_TOKEN='') (updated_lines t lines) \<noteq> []"
    by (auto simp: updated_lines_def filter_empty_conv token_prefixes rewrite_line_prefix)
  assume "l \<in> set (updated_lines t lines)" "prefix ''REFRESH_TOKEN='' l"
  then show "l = refresh_line t"
    by (auto simp: updated_lines_def token_prefixes rewrite_line_prefix rewrite_line_cases
        split: if_splits)
qed

lemma takeWhile_until: "x \<notin> set k \<Longrightarrow> takeWhile (\<lambda>c. c \<noteq> x) (k @ x # rest) = k"
  by (induction k) auto

lemma line_key_iff:
  "line_key l = Some k \<longleftrightarrow> prefix (k @ ''='') l \<and> CHR ''='' \<notin> set k"
proof
  assume a: "line_key l = Some k"
  then have m: "CHR ''='' \<in> set l" and k: "k = takeWhile (\<lambda>c. c \<noteq> CHR ''='') l"
    by (auto simp: line_key_def split: if_splits)
  from m have "dropWhile (\<lambda>c. c \<noteq> CHR ''='') l \<noteq> []" by simp
  then obtain rest where d: "dropWhile (\<lambda>c. c \<noteq> CHR ''='') l = CHR ''='' # rest"
    using hd_dropWhile [of "\<lambda>c. c \<noteq> CHR ''=''" l]
    by (cases "dropWhile (\<lambda>c. c \<noteq> CHR ''='') l") auto
  have "l = takeWhile (\<lambda>c. c \<noteq> CHR ''='') l @ dropWhile (\<lambda>c. c \<noteq> CHR ''='') l" by simp
  with k d have "l = k @ ''='' @ rest" by simp
  moreover from k have "CHR ''='' \<notin> set k" by (auto dest: set_takeWhileD)
  ultimately show "prefix (k @ ''='') l \<and> CHR ''='' \<notin> set k"
    by (metis append.assoc prefixI)
next
  assume "prefix (k @ ''='') l \<and> CHR ''='' \<notin> set k"
  then obtain rest where l: "l = k @ CHR ''='' # rest" and k: "CHR ''='' \<notin> set k"
    by (auto simp: prefix_def)
  from k have "takeWhile (\<lambda>c. c \<noteq> CHR ''='') (k @ CHR ''='' # rest) = k"
    by (rule takeWhile_until)
  with l show "line_key l = Some k" by (simp add: line_key_def)
qed

lemma line_key_tokens:
  "line_key l = Some ''ACCESS_TOKEN'' \<longleftrightarrow> prefix ''ACCESS_TOKEN='' l"
  "line_key l = Some ''REFRESH_TOKEN'' \<longleftrightarrow> prefix ''REFRESH_TOKEN='' l"
  by (simp_all add: line_key_iff)

lemma line_key_rewrite: "line_key (rewrite_line t l) = line_key l"
proof (cases "token_line l")
  case True
  then show ?thesis
    using line_key_tokens [of l] line_key_tokens [of "rewrite_line t l"]
    by (auto simp: token_line_def rewrite_line_prefix)
next
  case False
  then show ?thesis by (simp add: rewrite_line_cases)
qed

lemma line_value_tokens:
  "newline \<notin> set (access_token t) \<Longrightarrow> line_value (access_line t) = access_token t"
  "newline \<notin> set (refresh_token t) \<Longrightarrow> line_value (refresh_line t) = refresh_token t"
  by (simp_all add: line_value_def access_line_def refresh_line_def takeWhile_until)

lemma proper_token_lines:
  "newline \<notin> set (access_token t) \<Longrightarrow> proper_line (access_line t)"
  "newline \<notin> set (refresh_token t) \<Longrightarrow> proper_line (refresh_line t)"
  by (simp_all add: proper_line_def access_line_def refresh_line_def butlast_append newline_def)

lemma proper_updated_lines:
  assumes "\<forall>l \<in> set lines. proper_line l"
    and "newline \<notin> set (access_token t)" and "newline \<notin> set (refresh_token t)"
  shows "\<forall>l \<in> set (updated_lines t lines). proper_line l"
  using assms
  by (auto simp: updated_lines_def rewrite_line_def proper_token_lines split: if_splits)


lemma token_lines_free:
  "carriage_return \<notin> set (access_token t) \<Longrightarrow> carriage_return \<notin> set (access_line t)"
  "carriage_return \<notin> set (refresh_token t) \<Longrightarrow> carriage_return \<notin> set (refresh_line t)"
  by (simp_all add: access_line_def refresh_line_def newline_def carriage_return_def)

lemma update_env_file_free:
  assumes "carriage_return \<notin> set (access_token t)"
    and "carriage_return \<notin> set (refresh_token t)"
  shows "carriage_return \<notin> set (update_env_file t (Some s))"
proof -
  have "carriage_return \<notin> set (rewrite_line t l)" if "l \<in> set (readlines s)" for l
    using that assms by (auto simp: rewrite_line_def token_lines_free dest: readlines_free)
  with assms show ?thesis
    by (auto simp: update_env_file_eq updated_lines_def token_lines_free)
qed

lemma readlines_updated:
  assumes "ends_with_newline (universal_newlines s)"
    and "newline \<notin> set (access_token t)" and "newline \<notin> set (refresh_token t)"
    and "carriage_return \<notin> set (access_token t)"
    and "carriage_return \<notin> set (refresh_token t)"
  shows "readlines (update_env_file t (Some s)) = updated_lines t (readlines s)"
proof -
  from assms(1) have "\<forall>l \<in> set (readlines s). proper_line l"
    unfolding readlines_def by (blast intro: lines_of_proper)
  from proper_updated_lines [OF this assms(2,3)]
  have split: "lines_of (concat (updated_lines t (readlines s))) = updated_lines t (readlines s)"
    by (rule lines_of_concat)
  have "universal_newlines (update_env_file t (Some s)) = update_env_file t (Some s)"
    by (rule universal_newlines_id) (rule update_env_file_free [OF assms(4,5)])
  then have "readlines (update_env_file t (Some s)) = lines_of (update_env_file t (Some s))"
    by (simp add: readlines_def)
  also have "\<dots> = lines_of (concat (updated_lines t (readlines s)))"
    by (simp add: update_env_file_eq)
  also note split
  finally show ?thesis .
qed

lemma last_all_equal: "xs \<noteq> [] \<Longrightarrow> \<forall>x \<in> set xs. x = a \<Longrightarrow> last xs = a"
  by (induction xs) auto

lemma map_filter_append: "List.map_filter f (xs @ ys) = List.map_filter f xs @ List.map_filter f ys"
  by (simp add: map_filter_def)

lemma set_map_filter: "set (List.map_filter f xs) = {k. \<exists>x \<in> set xs. f x = Some k}"
  by (auto simp: map_filter_def intro: rev_image_eqI)

lemma keys_updated:
  "List.map_filter line_key (updated_lines t lines) =
     List.map_filter line_key lines
     @ (if \<exists>l \<in> set lines. prefix ''ACCESS_TOKEN='' l then [] else [''ACCESS_TOKEN''])
     @ (if \<exists>l \<in> set lines. prefix ''REFRESH_TOKEN='' l then [] else [''REFRESH_TOKEN''])"
proof -
  have "List.map_filter line_key (map (rewrite_line t) lines) = List.map_filter line_key lines"
    by (induction lines) (simp_all add: map_filter_simps line_key_rewrite split: option.splits)
  moreover have "line_key (access_line t) = Some ''ACCESS_TOKEN''"
    "line_key (refresh_line t) = Some ''REFRESH_TOKEN''"
    by (simp_all add: line_key_tokens token_prefixes)
  ultimately show ?thesis
    by (simp add: updated_lines_def map_filter_append map_filter_simps)
qed

text \<open>
  A file whose last line has no newline: the appended \<open>ACCESS_TOKEN=\<close> line is written onto
  that line, so the token cannot be read back and the value of the last key has changed.
\<close>

lemma update_env_file_missing_final_newline:
  "update_env_file \<lparr>access_token = ''new'', refresh_token = ''ref''\<rparr> (Some ''CLIENT_ID=1'')
      = ''CLIENT_ID=1ACCESS_TOKEN=new\<newline>REFRESH_TOKEN=ref\<newline>''
   \<and> read_env ''CLIENT_ID=1ACCESS_TOKEN=new\<newline>REFRESH_TOKEN=ref\<newline>'' ''ACCESS_TOKEN''
      = None
   \<and> read_env ''CLIENT_ID=1ACCESS_TOKEN=new\<newline>REFRESH_TOKEN=ref\<newline>'' ''CLIENT_ID''
      = Some ''1ACCESS_TOKEN=new''"
proof (intro conjI)
  show "update_env_file \<lparr>access_token = ''new'', refresh_token = ''ref''\<rparr> (Some ''CLIENT_ID=1'')
      = ''CLIENT_ID=1ACCESS_TOKEN=new\<newline>REFRESH_TOKEN=ref\<newline>''"
    by code_simp
  show "read_env ''CLIENT_ID=1ACCESS_TOKEN=new\<newline>REFRESH_TOKEN=ref\<newline>'' ''ACCESS_TOKEN''
      = None"
    by code_simp
  show "read_env ''CLIENT_ID=1ACCESS_TOKEN=new\<newline>REFRESH_TOKEN=ref\<newline>'' ''CLIENT_ID''
      = Some ''1ACCESS_TOKEN=new''"
    by code_simp
qed

section \<open>The properties\<close>

text \<open>
  C5 (sort invariant). Whenever a run hands a list to \<open>save_activities\<close>, in incremental or
  in full-refresh mode, for any activities file and any fetched activities, every record
  of the list has a string as sort key and the list is non-decreasing by
  \<open>start_date_local\<close> under the lexicographic order of strings.
\<close>

theorem persisted_sorted:
  assumes "merge_activities full f acts = Wrote ys"
  shows "(\<forall>y \<in> set ys. str_keyed y) \<and> sorted (map start_date_str ys)"
proof (cases full)
  case True
  with assms obtain new where new: "collect_new [] acts = Inr new"
    and ys: "ys = sort_key start_date_str new"
    by (auto simp: merge_full_refresh split: sum.splits)
  from new have "\<forall>x \<in> set new. str_keyed x"
    by (auto dest: collect_new_str_keyed)
  with ys show ?thesis by (simp add: sorted_sort_key)
next
  case False
  with assms have "merge_activities False f acts = Wrote ys" by simp
  from merge_incremental_Wrote [OF this] obtain xs ids new where
    new: "collect_new ids acts = Inr new" and xs: "\<forall>x \<in> set xs. str_keyed x"
    and ys: "ys = sort_key start_date_str (xs @ new)" by blast
  from new have "\<forall>x \<in> set new. str_keyed x"
    by (auto dest: collect_new_str_keyed)
  with xs ys show ?thesis by (auto simp: sorted_sort_key)
qed

theorem persisted_sorted_witness:
  "merge_activities False Missing [ride 10 ''10'' ''2024-01-02'', ride 11 ''11'' ''2024-01-01'']
     = Wrote [JObj (ride_dict 11 ''2024-01-01''), JObj (ride_dict 10 ''2024-01-02'')]
   \<and> str_keyed (JObj (ride_dict 11 ''2024-01-01''))
   \<and> str_keyed (JObj (ride_dict 10 ''2024-01-02''))
   \<and> sorted (map start_date_str
        [JObj (ride_dict 11 ''2024-01-01''), JObj (ride_dict 10 ''2024-01-02'')])"
  using persisted_sorted [OF scenario_two_rides] scenario_two_rides by simp

text \<open>
  C4 (full-refresh replacement). In full-refresh mode what the merge computes does not
  depend on the activities file, and whatever it hands to \<open>save_activities\<close> is the list of
  the normalized records of the fetched activities, sorted by \<open>start_date_local\<close>. When
  every fetched activity has an \<open>id\<close> attribute that can be formatted (as every activity
  object of the provider's library has), the run does save: the activities file after the
  merge, and after \<open>main\<close> when the refresh and the fetch succeed, holds exactly these
  records and nothing of the previous store.
\<close>

theorem full_refresh_replaces:
  "merge_activities True f acts = merge_activities True f' acts
   \<and> (\<forall>ys. merge_activities True f acts = Wrote ys \<longrightarrow>
         ys = sort_key start_date_str (normalized_records acts))
   \<and> ((\<forall>a \<in> set acts. \<exists>s. format_id a = Inr s) \<longrightarrow>
         merge_activities True f acts = Wrote (sort_key start_date_str (normalized_records acts))
         \<and> sync_file True f acts
             = Json (JArr (sort_key start_date_str (normalized_records acts))))
   \<and> (is_set (CLIENT_ID cfg) \<and> is_set (CLIENT_SECRET cfg) \<and> is_set (REFRESH_TOKEN cfg)
        \<and> refresh_access_token p = Inr t
        \<and> get_activities p (access_token t) (limit ar) = Inr acts
        \<and> full_refresh ar
        \<and> (\<forall>a \<in> set acts. \<exists>s. format_id a = Inr s) \<longrightarrow>
         activities_file (main cfg ar p w)
           = Json (JArr (sort_key start_date_str (normalized_records acts))))"
proof -
  have indep: "merge_activities True f acts = merge_activities True f' acts"
    by (simp add: merge_full_refresh)
  have only: "ys = sort_key start_date_str (normalized_records acts)"
    if "merge_activities True f acts = Wrote ys" for ys
  proof -
    from that obtain new where new: "collect_new [] acts = Inr new"
      and ys: "ys = sort_key start_date_str new"
      by (auto simp: merge_full_refresh split: sum.splits)
    from collect_new_filter [OF new] ys show ?thesis
      by (simp add: is_new_empty)
  qed
  have wrote: "merge_activities True g acts
      = Wrote (sort_key start_date_str (normalized_records acts))"
    if "\<forall>a \<in> set acts. \<exists>s. format_id a = Inr s" for g
  proof -
    from collect_new_total [OF that] obtain new where new: "collect_new [] acts = Inr new"
      by blast
    from collect_new_filter [OF new] new show ?thesis
      by (simp add: merge_full_refresh is_new_empty)
  qed
  have saved: "sync_file True g acts
      = Json (JArr (sort_key start_date_str (normalized_records acts)))"
    if "\<forall>a \<in> set acts. \<exists>s. format_id a = Inr s" for g
    by (simp add: sync_file_def save_result_def wrote [OF that])
  have run: "activities_file (main cfg ar p w)
      = Json (JArr (sort_key start_date_str (normalized_records acts)))"
    if c: "is_set (CLIENT_ID cfg)" "is_set (CLIENT_SECRET cfg)" "is_set (REFRESH_TOKEN cfg)"
      and r: "refresh_access_token p = Inr t"
      and g: "get_activities p (access_token t) (limit ar) = Inr acts"
      and m: "full_refresh ar"
      and a: "\<forall>a \<in> set acts. \<exists>s. format_id a = Inr s"
  proof -
    from c(3) r have "get_token cfg p (env_file w)
        = (Inr (access_token t), Some (update_env_file t (env_file w)))"
      by (simp add: get_token_def)
    with c(1,2) g m have "activities_file (main cfg ar p w)
        = sync_file True (activities_file w) acts"
      by (simp add: main_def)
    with saved [OF a] show ?thesis by simp
  qed
  from indep only wrote saved run show ?thesis by blast
qed

theorem full_refresh_replaces_witness:
  "sync_file True
     (Json (JArr [JObj (ride_dict 1 ''2024-01-01''), JObj (ride_dict 2 ''2024-01-02''),
                  JObj (ride_dict 3 ''2024-01-03'')]))
     [ride 4 ''4'' ''2024-01-04'', ride 3 ''3'' ''2024-01-03'', ride 2 ''2'' ''2024-01-02'']
   = Json (JArr [JObj (ride_dict 2 ''2024-01-02''), JObj (ride_dict 3 ''2024-01-03''),
                 JObj (ride_dict 4 ''2024-01-04'')])
   \<and> activities_file
       (main \<lparr>CLIENT_ID = Some ''1'', CLIENT_SECRET = Some ''s'', REFRESH_TOKEN = Some ''old''\<rparr>
         \<lparr>full_refresh = True, limit = 30\<rparr>
         \<lparr>refresh_access_token = Inr \<lparr>access_token = ''a'', refresh_token = ''r''\<rparr>,
          get_activities = (\<lambda>token n.
            Inr [ride 4 ''4'' ''2024-01-04'', ride 3 ''3'' ''2024-01-03'',
                 ride 2 ''2'' ''2024-01-02''])\<rparr>
         \<lparr>env_file = None,
          activities_file =
            Json (JArr [JObj (ride_dict 1 ''2024-01-01''), JObj (ride_dict 2 ''2024-01-02''),
                        JObj (ride_dict 3 ''2024-01-03'')])\<rparr>)
   = Json (JArr [JObj (ride_dict 2 ''2024-01-02''), JObj (ride_dict 3 ''2024-01-03''),
                 JObj (ride_dict 4 ''2024-01-04'')])"
proof -
  let ?f = "Json (JArr [JObj (ride_dict 1 ''2024-01-01''), JObj (ride_dict 2 ''2024-01-02''),
                  JObj (ride_dict 3 ''2024-01-03'')])"
  let ?acts = "[ride 4 ''4'' ''2024-01-04'', ride 3 ''3'' ''2024-01-03'',
      ride 2 ''2'' ''2024-01-02'']"
  let ?ys = "[JObj (ride_dict 2 ''2024-01-02''), JObj (ride_dict 3 ''2024-01-03''),
      JObj (ride_dict 4 ''2024-01-04'')]"
  let ?cfg = "\<lparr>CLIENT_ID = Some ''1'', CLIENT_SECRET = Some ''s'', REFRESH_TOKEN = Some ''old''\<rparr>"
  let ?ar = "\<lparr>full_refresh = True, limit = 30\<rparr>"
  let ?t = "\<lparr>access_token = ''a'', refresh_token = ''r''\<rparr>"
  let ?p = "\<lparr>refresh_access_token = Inr ?t, get_activities = (\<lambda>token n. Inr ?acts)\<rparr>"
  let ?w = "\<lparr>env_file = None, activities_file = ?f\<rparr>"
  have h: "\<forall>a \<in> set ?acts. \<exists>s. format_id a = Inr s"
    by (simp add: format_id_ride)
  have n: "sort_key start_date_str (normalized_records ?acts) = ?ys"
    by (simp add: normalized_records_def map_filter_simps normalized_record_def
      ride_normalized start_date_str_def ride_dict_def)
  have c: "is_set (CLIENT_ID ?cfg) \<and> is_set (CLIENT_SECRET ?cfg) \<and> is_set (REFRESH_TOKEN ?cfg)
        \<and> refresh_access_token ?p = Inr ?t
        \<and> get_activities ?p (access_token ?t) (limit ?ar) = Inr ?acts
        \<and> full_refresh ?ar"
    by (simp add: is_set_def)
  note r = full_refresh_replaces [where f = ?f and f' = Missing and acts = ?acts
      and cfg = ?cfg and p = ?p and t = ?t and ar = ?ar and w = ?w]
  from r h have 1: "sync_file True ?f ?acts
      = Json (JArr (sort_key start_date_str (normalized_records ?acts)))"
    by blast
  from r h c have 2: "activities_file (main ?cfg ?ar ?p ?w)
      = Json (JArr (sort_key start_date_str (normalized_records ?acts)))"
    by blast
  from 1 2 show ?thesis unfolding n by (intro conjI)
qed

text \<open>
  C6 (corrupt-store recovery), as amended. When \<open>json.load\<close> rejects the content of the
  activities file with \<open>JSONDecodeError\<close>, the load gives the empty list, the merge is the
  one of a run that starts without a file, and an incremental run that fetches one
  activity which \<open>activity_to_dict\<close> converts leaves a file with exactly that normalized
  record. When \<open>open\<close> or \<open>json.load\<close> raises any other exception (bytes that are not
  text in the encoding, nesting too deep), the exception leaves the load, and the run
  writes nothing and leaves the file as it is.
\<close>

theorem corrupt_store_recovery:
  "load_existing_activities Corrupt = Inr (JArr [])
   \<and> merge_activities False Corrupt acts = merge_activities False Missing acts
   \<and> (activity_to_dict a = Inr d \<longrightarrow> sync_file False Corrupt [a] = Json (JArr [JObj d]))
   \<and> load_existing_activities (Unloadable e) = Inl e
   \<and> merge_activities False (Unloadable e) acts = Aborted e
   \<and> sync_file False (Unloadable e) acts = Unloadable e"
proof (intro conjI impI)
  show "load_existing_activities Corrupt = Inr (JArr [])" by simp
  show "merge_activities False Corrupt acts = merge_activities False Missing acts"
    by (simp add: merge_incremental)
  show "load_existing_activities (Unloadable e) = Inl e" by simp
  show a: "merge_activities False (Unloadable e) acts = Aborted e"
    by (simp add: merge_incremental)
  show "sync_file False (Unloadable e) acts = Unloadable e"
    by (simp add: sync_file_def save_result_def a)
next
  assume d: "activity_to_dict a = Inr d"
  have "is_new [] (JObj d)" by (rule is_new_empty)
  with d have "collect_new [] [a] = Inr [JObj d]"
    by (simp add: process_activity_eq)
  then have "merge_activities False Corrupt [a] = Wrote [JObj d]"
    by (simp add: merge_incremental existing_ids_def sort_by_start_date_def)
  then show "sync_file False Corrupt [a] = Json (JArr [JObj d])"
    by (simp add: sync_file_def save_result_def)
qed

theorem corrupt_store_recovery_witness:
  "load_existing_activities Corrupt = Inr (JArr [])
   \<and> activity_to_dict (ride 7 ''7'' ''2024-03-05'') = Inr (ride_dict 7 ''2024-03-05'')
   \<and> sync_file False Corrupt [ride 7 ''7'' ''2024-03-05'']
       = Json (JArr [JObj (ride_dict 7 ''2024-03-05'')])"
  using corrupt_store_recovery [of "[]" "ride 7 ''7'' ''2024-03-05''" "ride_dict 7 ''2024-03-05''"]
  by (simp add: ride_normalized)

theorem corrupt_store_recovery_counterexample:
  "load_existing_activities (Unloadable ValueError) = Inl ValueError
   \<and> activity_to_dict (ride 7 ''7'' ''2024-03-05'') = Inr (ride_dict 7 ''2024-03-05'')
   \<and> sync_file False (Unloadable ValueError) [ride 7 ''7'' ''2024-03-05'']
       = Unloadable ValueError"
  by (simp add: ride_normalized sync_file_def save_result_def merge_incremental)

text \<open>
  C1 (incremental-sync idempotence). For every activities file and every list of fetched
  activities, a second incremental run with the same fetched activities leaves the file
  exactly as the first run left it; the second run hands nothing to \<open>save_activities\<close>,
  so it introduces no record and no duplicate id.
\<close>

theorem sync_idempotent:
  "sync_file False (sync_file False f acts) acts = sync_file False f acts
   \<and> (\<forall>zs. merge_activities False (sync_file False f acts) acts \<noteq> Wrote zs)"
proof (cases "\<exists>ys. merge_activities False f acts = Wrote ys")
  case True
  then obtain ys where ys: "merge_activities False f acts = Wrote ys" by blast
  then have f1: "sync_file False f acts = Json (JArr ys)"
    by (simp add: sync_file_def save_result_def)
  from second_run_no_write [OF ys] have "\<forall>zs. merge_activities False (Json (JArr ys)) acts \<noteq> Wrote zs"
    by blast
  with f1 show ?thesis
    by (auto simp: sync_file_def save_result_def split: merge_result.splits)
next
  case False
  then have "sync_file False f acts = f"
    by (auto simp: sync_file_def save_result_def split: merge_result.splits)
  with False show ?thesis by simp
qed

theorem sync_idempotent_witness:
  "sync_file False Missing [ride 10 ''10'' ''2024-01-02'', ride 11 ''11'' ''2024-01-01'']
     = Json (JArr [JObj (ride_dict 11 ''2024-01-01''), JObj (ride_dict 10 ''2024-01-02'')])
   \<and> sync_file False
       (Json (JArr [JObj (ride_dict 11 ''2024-01-01''), JObj (ride_dict 10 ''2024-01-02'')]))
       [ride 10 ''10'' ''2024-01-02'', ride 11 ''11'' ''2024-01-01'']
     = Json (JArr [JObj (ride_dict 11 ''2024-01-01''), JObj (ride_dict 10 ''2024-01-02'')])"
  (is "sync_file False Missing ?acts = ?f1 \<and> _")
proof -
  have 1: "sync_file False Missing ?acts = ?f1"
    by (simp add: sync_file_def save_result_def scenario_two_rides)
  from sync_idempotent [of Missing ?acts] 1 show ?thesis by simp
qed

text \<open>
  C3 (store id-uniqueness), as amended. If the ids of the stored records are pairwise
  distinct before the run (incremental mode) and the ids of the normalized fetched
  activities are pairwise distinct, then in the list a run saves, in incremental or in
  full-refresh mode, no two records have the same id. Without the two conditions the
  property fails: the id filter only compares a fetched activity with the stored ids, so
  an id that occurs twice among the fetched activities, or twice in the store, occurs
  twice in the saved list, as the counterexample after the witness shows.
\<close>

theorem store_ids_distinct:
  assumes "merge_activities full f acts = Wrote ys"
    and "\<forall>xs. \<not> full \<and> load_existing_activities f = Inr (JArr xs) \<longrightarrow> distinct (record_ids xs)"
    and "distinct (record_ids (normalized_records acts))"
  shows "distinct (record_ids ys)"
proof (cases full)
  case True
  with assms(1) obtain new where new: "collect_new [] acts = Inr new"
    and ys: "ys = sort_key start_date_str new"
    by (auto simp: merge_full_refresh split: sum.splits)
  from collect_new_filter [OF new] assms(3) have "distinct (record_ids new)"
    by (simp add: distinct_record_ids_filter)
  with ys show ?thesis by (simp add: distinct_record_ids_sort)
next
  case False
  with assms(1) have "merge_activities False f acts = Wrote ys" by simp
  from merge_incremental_Wrote [OF this] obtain xs ids new where
    xs: "load_existing_activities f = Inr (JArr xs)" and ids: "collect_ids xs = Inr ids"
    and new: "collect_new ids acts = Inr new"
    and ys: "ys = sort_key start_date_str (xs @ new)" by blast
  from False xs assms(2) have dx: "distinct (record_ids xs)" by blast
  have i: "ids = record_ids xs" by (rule collect_ids_Inr [OF ids])
  have n: "new = filter (is_new ids) (normalized_records acts)"
    by (rule collect_new_filter [OF new])
  with assms(3) have dn: "distinct (record_ids new)"
    by (simp add: distinct_record_ids_filter)
  have "set (record_ids xs) \<inter> set (record_ids new) = {}"
  proof -
    have "j \<notin> set (record_ids xs)" if "j \<in> set (record_ids new)" for j
    proof -
      from that obtain x where "x \<in> set new" "record_id x = Some j"
        by (auto simp: set_record_ids)
      with n i show ?thesis by (auto dest: is_new_not_member)
    qed
    then show ?thesis by blast
  qed
  with dx dn have "distinct (record_ids (xs @ new))"
    by (simp add: record_ids_append)
  with ys show ?thesis by (simp add: distinct_record_ids_sort)
qed

theorem store_ids_distinct_witness:
  "merge_activities False Missing [ride 10 ''10'' ''2024-01-02'', ride 11 ''11'' ''2024-01-01'']
     = Wrote [JObj (ride_dict 11 ''2024-01-01''), JObj (ride_dict 10 ''2024-01-02'')]
   \<and> distinct (record_ids (normalized_records
        [ride 10 ''10'' ''2024-01-02'', ride 11 ''11'' ''2024-01-01'']))
   \<and> distinct (record_ids [JObj (ride_dict 11 ''2024-01-01''), JObj (ride_dict 10 ''2024-01-02'')])"
  (is "merge_activities False Missing ?acts = Wrote ?ys \<and> _")
proof -
  have 2: "\<forall>xs. \<not> False \<and> load_existing_activities Missing = Inr (JArr xs)
      \<longrightarrow> distinct (record_ids xs)"
    by (simp add: record_ids_Nil)
  have 3: "distinct (record_ids (normalized_records ?acts))"
    by (simp add: normalized_records_def map_filter_simps normalized_record_def ride_normalized
        record_ids_Cons record_ids_Nil ride_dict_id)
  from store_ids_distinct [OF scenario_two_rides 2 3] scenario_two_rides 3
  show ?thesis by simp
qed

theorem store_ids_distinct_counterexample:
  "merge_activities True Missing [ride 7 ''7'' ''2024-01-01'', ride 7 ''7'' ''2024-01-01'']
     = Wrote [JObj (ride_dict 7 ''2024-01-01''), JObj (ride_dict 7 ''2024-01-01'')]
   \<and> \<not> distinct (record_ids [JObj (ride_dict 7 ''2024-01-01''), JObj (ride_dict 7 ''2024-01-01'')])
   \<and> merge_activities False
        (Json (JArr [JObj [(''id'', JInt 1), (''start_date_local'', JStr ''2024-01-01'')],
                     JObj [(''id'', JInt 1), (''start_date_local'', JStr ''2024-01-01'')]]))
        [ride 2 ''2'' ''2024-01-02'']
     = Wrote [JObj [(''id'', JInt 1), (''start_date_local'', JStr ''2024-01-01'')],
              JObj [(''id'', JInt 1), (''start_date_local'', JStr ''2024-01-01'')],
              JObj (ride_dict 2 ''2024-01-02'')]
   \<and> \<not> distinct (record_ids
        [JObj [(''id'', JInt 1), (''start_date_local'', JStr ''2024-01-01'')],
         JObj [(''id'', JInt 1), (''start_date_local'', JStr ''2024-01-01'')],
         JObj (ride_dict 2 ''2024-01-02'')])"
proof (intro conjI)
  show "merge_activities True Missing [ride 7 ''7'' ''2024-01-01'', ride 7 ''7'' ''2024-01-01'']
     = Wrote [JObj (ride_dict 7 ''2024-01-01''), JObj (ride_dict 7 ''2024-01-01'')]"
    by (simp add: merge_full_refresh process_activity_eq ride_normalized is_new_empty
        start_date_str_def ride_dict_def)
  show "\<not> distinct (record_ids [JObj (ride_dict 7 ''2024-01-01''), JObj (ride_dict 7 ''2024-01-01'')])"
    by (simp add: record_ids_Cons record_ids_Nil ride_dict_id)
  show "merge_activities False
        (Json (JArr [JObj [(''id'', JInt 1), (''start_date_local'', JStr ''2024-01-01'')],
                     JObj [(''id'', JInt 1), (''start_date_local'', JStr ''2024-01-01'')]]))
        [ride 2 ''2'' ''2024-01-02'']
     = Wrote [JObj [(''id'', JInt 1), (''start_date_local'', JStr ''2024-01-01'')],
              JObj [(''id'', JInt 1), (''start_date_local'', JStr ''2024-01-01'')],
              JObj (ride_dict 2 ''2024-01-02'')]"
    by (simp add: merge_incremental existing_ids_def process_activity_eq ride_normalized
        is_new_def py_in_def py_eq_def sort_by_start_date_def start_date_str_def ride_dict_def)
  show "\<not> distinct (record_ids
        [JObj [(''id'', JInt 1), (''start_date_local'', JStr ''2024-01-01'')],
         JObj [(''id'', JInt 1), (''start_date_local'', JStr ''2024-01-01'')],
         JObj (ride_dict 2 ''2024-01-02'')])"
    by (simp add: record_ids_Cons record_ids_Nil)
qed

text \<open>
  C10 (malformed stored records are tolerated and preserved). Let every stored record be a
  JSON object that is well formed except that it may lack \<open>id\<close> or \<open>start_date_local\<close>,
  and let every fetched activity have an \<open>id\<close> that can be formatted. Then the set of
  existing ids is computed without an exception and is that of the records that have an
  \<open>id\<close>, so a record without one is never a reason to drop a fetched activity; the
  incremental run does not fail: it either has nothing new and writes nothing, or saves
  the stored records together with the new ones; every stored record is in the saved list;
  and a record without \<open>start_date_local\<close>, sorted with the empty string as key, comes
  before every record whose \<open>start_date_local\<close> is a non-empty string.
\<close>

theorem malformed_records_tolerated:
  assumes "\<forall>x \<in> set xs. tolerated_record x"
    and "\<forall>a \<in> set acts. \<exists>s. format_id a = Inr s"
  shows "existing_ids (JArr xs) = Inr (record_ids (filter (\<lambda>x. \<not> lacks_key ''id'' x) xs))
    \<and> merge_activities False (Json (JArr xs)) acts =
        (if filter (is_new (record_ids (filter (\<lambda>x. \<not> lacks_key ''id'' x) xs)))
              (normalized_records acts) = []
         then No_write
         else Wrote (sort_key start_date_str
           (xs @ filter (is_new (record_ids (filter (\<lambda>x. \<not> lacks_key ''id'' x) xs)))
              (normalized_records acts))))
    \<and> (\<forall>ys. merge_activities False (Json (JArr xs)) acts = Wrote ys \<longrightarrow>
          set xs \<subseteq> set ys \<and>
          (\<forall>i j. i < length ys \<and> j < length ys \<and> lacks_key ''start_date_local'' (ys ! i)
              \<and> start_date_str (ys ! j) \<noteq> [] \<longrightarrow> i < j))"
proof (intro conjI allI impI)
  have ids: "collect_ids xs = Inr (record_ids xs)"
    by (rule collect_ids_tolerated [OF assms(1)])
  then show e: "existing_ids (JArr xs) = Inr (record_ids (filter (\<lambda>x. \<not> lacks_key ''id'' x) xs))"
    by (simp add: existing_ids_def record_ids_having_id)
  from collect_new_total [OF assms(2)] obtain new where
    new: "collect_new (record_ids xs) acts = Inr new" by blast
  have n: "new = filter (is_new (record_ids xs)) (normalized_records acts)"
    by (rule collect_new_filter [OF new])
  have "\<forall>x \<in> set (xs @ new). str_keyed x"
    using assms(1) new by (auto dest: tolerated_str_keyed collect_new_str_keyed)
  from sort_all_str [OF this]
  have s: "sort_by_start_date (xs @ new) = Sorted (sort_key start_date_str (xs @ new))" .
  show m: "merge_activities False (Json (JArr xs)) acts =
        (if filter (is_new (record_ids (filter (\<lambda>x. \<not> lacks_key ''id'' x) xs)))
              (normalized_records acts) = []
         then No_write
         else Wrote (sort_key start_date_str
           (xs @ filter (is_new (record_ids (filter (\<lambda>x. \<not> lacks_key ''id'' x) xs)))
              (normalized_records acts))))"
    using ids new s n
    by (simp add: merge_incremental existing_ids_def record_ids_having_id)
  fix ys
  assume w: "merge_activities False (Json (JArr xs)) acts = Wrote ys"
  from w m show "set xs \<subseteq> set ys"
    by (auto split: if_splits)
  fix i j
  assume a: "i < length ys \<and> j < length ys \<and> lacks_key ''start_date_local'' (ys ! i)
              \<and> start_date_str (ys ! j) \<noteq> []"
  from w m have "sorted (map start_date_str ys)"
    by (auto simp: sorted_sort_key split: if_splits)
  from sorted_empty_first [OF this] a show "i < j"
    by (auto dest: lacks_start_date_key)
qed


theorem malformed_records_tolerated_witness:
  "tolerated_record (JObj (ride_dict 1 ''2024-01-01''))
   \<and> tolerated_record (JObj [(''name'', JStr ''stray'')])
   \<and> format_id (ride 2 ''2'' ''2024-01-02'') = Inr ''2''
   \<and> merge_activities False
        (Json (JArr [JObj (ride_dict 1 ''2024-01-01''), JObj [(''name'', JStr ''stray'')]]))
        [ride 2 ''2'' ''2024-01-02'']
      = Wrote [JObj [(''name'', JStr ''stray'')], JObj (ride_dict 1 ''2024-01-01''),
               JObj (ride_dict 2 ''2024-01-02'')]"
  (is "_ \<and> _ \<and> _ \<and> merge_activities False (Json (JArr ?xs)) ?acts = Wrote ?ys")
proof -
  have 1: "\<forall>x \<in> set ?xs. tolerated_record x"
    by (simp add: ride_dict_def)
  have 2: "\<forall>a \<in> set ?acts. \<exists>s. format_id a = Inr s"
    by (simp add: format_id_ride)
  have 3: "filter (is_new (record_ids (filter (\<lambda>x. \<not> lacks_key ''id'' x) ?xs)))
      (normalized_records ?acts) = [JObj (ride_dict 2 ''2024-01-02'')]"
    by (simp add: normalized_records_def map_filter_simps normalized_record_def ride_normalized
        record_ids_Cons record_ids_Nil ride_dict_id is_new_def py_in_def py_eq_def)
  have 4: "sort_key start_date_str (?xs @ [JObj (ride_dict 2 ''2024-01-02'')]) = ?ys"
    by (simp add: start_date_str_def ride_dict_def)
  from malformed_records_tolerated [OF 1 2]
  have "merge_activities False (Json (JArr ?xs)) ?acts = Wrote ?ys"
    unfolding 3 using 4 by simp
  with 1 show ?thesis by (simp add: format_id_ride)
qed

text \<open>
  C7 (error atomicity of the sync run). If the refresh exchange fails, the run leaves both
  files as they were; if the fetch of the activities fails, the run leaves the activities
  file as it was. In the second case the credentials file has been rewritten with the
  refreshed tokens before the fetch.
\<close>

theorem error_paths_leave_store:
  "(\<forall>e. refresh_access_token p = Inl e \<longrightarrow> main cfg ar p w = w)
   \<and> ((\<forall>t. \<exists>e. get_activities p t (limit ar) = Inl e) \<longrightarrow>
        activities_file (main cfg ar p w) = activities_file w)
   \<and> (\<forall>t e. is_set (CLIENT_ID cfg) \<and> is_set (CLIENT_SECRET cfg) \<and> is_set (REFRESH_TOKEN cfg)
          \<and> refresh_access_token p = Inr t
          \<and> get_activities p (access_token t) (limit ar) = Inl e \<longrightarrow>
        main cfg ar p w = w\<lparr>env_file := Some (update_env_file t (env_file w))\<rparr>)"
proof (intro conjI allI impI)
  fix e
  assume "refresh_access_token p = Inl e"
  then show "main cfg ar p w = w"
    by (simp add: main_def get_token_failed)
next
  assume f: "\<forall>t. \<exists>e. get_activities p t (limit ar) = Inl e"
  show "activities_file (main cfg ar p w) = activities_file w"
  proof (cases "get_token cfg p (env_file w)")
    case (Pair r env)
    show ?thesis
    proof (cases r)
      case (Inl e)
      with Pair show ?thesis by (simp add: main_def)
    next
      case (Inr token)
      from f obtain e where "get_activities p token (limit ar) = Inl e" by blast
      with Pair Inr show ?thesis by (simp add: main_def)
    qed
  qed
next
  fix t e
  assume "is_set (CLIENT_ID cfg) \<and> is_set (CLIENT_SECRET cfg) \<and> is_set (REFRESH_TOKEN cfg)
          \<and> refresh_access_token p = Inr t
          \<and> get_activities p (access_token t) (limit ar) = Inl e"
  then show "main cfg ar p w = w\<lparr>env_file := Some (update_env_file t (env_file w))\<rparr>"
    by (simp add: main_def get_token_def)
qed

theorem error_paths_leave_store_witness:
  "main \<lparr>CLIENT_ID = Some ''1'', CLIENT_SECRET = Some ''s'', REFRESH_TOKEN = Some ''old''\<rparr>
        \<lparr>full_refresh = False, limit = 30\<rparr>
        \<lparr>refresh_access_token = Inl OtherError, get_activities = (\<lambda>t n. Inr [])\<rparr>
        \<lparr>env_file = Some ''REFRESH_TOKEN=old'', activities_file = Json (JArr [])\<rparr>
     = \<lparr>env_file = Some ''REFRESH_TOKEN=old'', activities_file = Json (JArr [])\<rparr>
   \<and> activities_file
        (main \<lparr>CLIENT_ID = Some ''1'', CLIENT_SECRET = Some ''s'', REFRESH_TOKEN = Some ''old''\<rparr>
          \<lparr>full_refresh = True, limit = 30\<rparr>
          \<lparr>refresh_access_token = Inr \<lparr>access_token = ''a'', refresh_token = ''r''\<rparr>,
           get_activities = (\<lambda>t n. Inl OtherError)\<rparr>
          \<lparr>env_file = Some ''REFRESH_TOKEN=old'', activities_file = Json (JArr [])\<rparr>)
     = Json (JArr [])"
proof -
  let ?cfg = "\<lparr>CLIENT_ID = Some ''1'', CLIENT_SECRET = Some ''s'', REFRESH_TOKEN = Some ''old''\<rparr>"
  let ?w = "\<lparr>env_file = Some ''REFRESH_TOKEN=old'', activities_file = Json (JArr [])\<rparr>"
  let ?p1 = "\<lparr>refresh_access_token = Inl OtherError, get_activities = (\<lambda>t n. Inr [])\<rparr>"
  let ?p2 = "\<lparr>refresh_access_token = Inr \<lparr>access_token = ''a'', refresh_token = ''r''\<rparr>,
           get_activities = (\<lambda>t n. Inl OtherError)\<rparr>"
  from error_paths_leave_store [where p = ?p1 and cfg = ?cfg and w = ?w
      and ar = "\<lparr>full_refresh = False, limit = 30\<rparr>"]
  have 1: "main ?cfg \<lparr>full_refresh = False, limit = 30\<rparr> ?p1 ?w = ?w" by simp
  from error_paths_leave_store [where p = ?p2 and cfg = ?cfg and w = ?w
      and ar = "\<lparr>full_refresh = True, limit = 30\<rparr>"]
  have 2: "activities_file (main ?cfg \<lparr>full_refresh = True, limit = 30\<rparr> ?p2 ?w) = Json (JArr [])"
    by simp
  from 1 2 show ?thesis by simp
qed

text \<open>
  C8 (missing-field defaulting), as amended. Let the required core of an activity convert
  (\<open>id\<close>, \<open>name\<close>, \<open>start_date_local\<close>, \<open>type\<close>, \<open>distance\<close>, \<open>moving_time\<close>,
  \<open>elapsed_time\<close>) and let the conversions of its optional attributes raise nothing but
  \<open>AttributeError\<close>, \<open>TypeError\<close> or \<open>ValueError\<close>. Then \<open>activity_to_dict\<close> returns a
  record in which every optional key is present, and an optional attribute that is
  absent, is \<open>None\<close> or fails to convert has the default of its class: null for floats and
  strings, 0 for integers, false for booleans. Otherwise the record is degraded to the
  seven core keys, with no optional key at all
  (the counterexample after the witness).
\<close>

theorem optional_fields_defaulted:
  assumes core: "base_properties a = Inr r0"
    and f: "\<forall>k v e. k \<in> set float_properties \<and> a k = Some v \<and> py_float v = Inl e \<longrightarrow> caught e"
    and i: "\<forall>k v e. k \<in> set int_properties \<and> a k = Some v \<and> py_int v = Inl e \<longrightarrow> caught e"
    and s: "\<forall>k v e. k \<in> set str_properties \<and> a k = Some v \<and> py_str v = Inl e \<longrightarrow> caught e"
    and b: "\<forall>k v e. k \<in> set bool_properties \<and> a k = Some v \<and> py_bool v = Inl e \<longrightarrow> caught e"
  shows "\<exists>r. activity_to_dict a = Inr r
    \<and> (\<forall>k \<in> set (float_properties @ int_properties @ str_properties @ bool_properties).
          map_of r k \<noteq> None)
    \<and> (\<forall>k \<in> set float_properties.
          (a k = None \<or> a k = Some PNone \<or> (\<exists>v e. a k = Some v \<and> py_float v = Inl e)) \<longrightarrow>
          map_of r k = Some JNull)
    \<and> (\<forall>k \<in> set int_properties.
          (a k = None \<or> a k = Some PNone \<or> (\<exists>v e. a k = Some v \<and> py_int v = Inl e)) \<longrightarrow>
          map_of r k = Some (JInt 0))
    \<and> (\<forall>k \<in> set str_properties.
          (a k = None \<or> a k = Some PNone \<or> (\<exists>v e. a k = Some v \<and> py_str v = Inl e)) \<longrightarrow>
          map_of r k = Some JNull)
    \<and> (\<forall>k \<in> set bool_properties.
          (a k = None \<or> a k = Some PNone \<or> (\<exists>v e. a k = Some v \<and> py_bool v = Inl e)) \<longrightarrow>
          map_of r k = Some (JBool False))"
proof -
  from f have "\<forall>k \<in> set float_properties. \<exists>j. float_property a k = Inr j"
    by (blast intro: float_property_total)
  from set_properties_total [of float_properties float_property a r0, OF this] obtain r1 where
    1: "set_properties float_property a float_properties r0 = Inr r1" by blast
  from i have "\<forall>k \<in> set int_properties. \<exists>j. int_property a k = Inr j"
    by (blast intro: int_property_total)
  from set_properties_total [of int_properties int_property a r1, OF this] obtain r2 where
    2: "set_properties int_property a int_properties r1 = Inr r2" by blast
  from s have "\<forall>k \<in> set str_properties. \<exists>j. str_property a k = Inr j"
    by (blast intro: str_property_total)
  from set_properties_total [of str_properties str_property a r2, OF this] obtain r3 where
    3: "set_properties str_property a str_properties r2 = Inr r3" by blast
  from b have "\<forall>k \<in> set bool_properties. \<exists>j. bool_property a k = Inr j"
    by (blast intro: bool_property_total)
  from set_properties_total [of bool_properties bool_property a r3, OF this] obtain r where
    4: "set_properties bool_property a bool_properties r3 = Inr r" by blast
  from core 1 2 3 4 have "full_dict a = Inr r"
    by (simp add: full_dict_def)
  then have d: "activity_to_dict a = Inr r"
    by (simp add: activity_to_dict_def)
  have fl: "map_of r k = Some JNull"
    if k: "k \<in> set float_properties"
      and m: "a k = None \<or> a k = Some PNone \<or> (\<exists>v e. a k = Some v \<and> py_float v = Inl e)"
    for k
  proof -
    from set_properties_value [OF 1 k] obtain j where
      j: "float_property a k = Inr j" "map_of r1 k = Some j" by blast
    from float_property_default [OF j(1) m] have "j = JNull" .
    moreover from property_keys_disjoint(1) [OF k]
    have "map_of r k = map_of r1 k"
      using set_properties_other [OF 2, of k] set_properties_other [OF 3, of k]
        set_properties_other [OF 4, of k] by simp
    ultimately show ?thesis using j(2) by simp
  qed
  have it: "map_of r k = Some (JInt 0)"
    if k: "k \<in> set int_properties"
      and m: "a k = None \<or> a k = Some PNone \<or> (\<exists>v e. a k = Some v \<and> py_int v = Inl e)"
    for k
  proof -
    from set_properties_value [OF 2 k] obtain j where
      j: "int_property a k = Inr j" "map_of r2 k = Some j" by blast
    from int_property_default [OF j(1) m] have "j = JInt 0" .
    moreover from property_keys_disjoint(2) [OF k]
    have "map_of r k = map_of r2 k"
      using set_properties_other [OF 3, of k] set_properties_other [OF 4, of k] by simp
    ultimately show ?thesis using j(2) by simp
  qed
  have st: "map_of r k = Some JNull"
    if k: "k \<in> set str_properties"
      and m: "a k = None \<or> a k = Some PNone \<or> (\<exists>v e. a k = Some v \<and> py_str v = Inl e)"
    for k
  proof -
    from set_properties_value [OF 3 k] obtain j where
      j: "str_property a k = Inr j" "map_of r3 k = Some j" by blast
    from str_property_default [OF j(1) m] have "j = JNull" .
    moreover from property_keys_disjoint(3) [OF k]
    have "map_of r k = map_of r3 k"
      using set_properties_other [OF 4, of k] by simp
    ultimately show ?thesis using j(2) by simp
  qed
  have bo: "map_of r k = Some (JBool False)"
    if k: "k \<in> set bool_properties"
      and m: "a k = None \<or> a k = Some PNone \<or> (\<exists>v e. a k = Some v \<and> py_bool v = Inl e)"
    for k
  proof -
    from set_properties_value [OF 4 k] obtain j where
      j: "bool_property a k = Inr j" "map_of r k = Some j" by blast
    from bool_property_default [OF j(1) m] have "j = JBool False" .
    with j(2) show ?thesis by simp
  qed
  have pr: "map_of r k \<noteq> None"
    if k: "k \<in> set (float_properties @ int_properties @ str_properties @ bool_properties)" for k
  proof -
    from k consider (flt) "k \<in> set float_properties" | (int) "k \<in> set int_properties"
      | (str) "k \<in> set str_properties" | (bool) "k \<in> set bool_properties" by auto
    then show ?thesis
    proof cases
      case flt
      from set_properties_value [OF 1 this] obtain j where "map_of r1 k = Some j" by blast
      with property_keys_disjoint(1) [OF flt] show ?thesis
        using set_properties_other [OF 2, of k] set_properties_other [OF 3, of k]
          set_properties_other [OF 4, of k] by simp
    next
      case int
      from set_properties_value [OF 2 this] obtain j where "map_of r2 k = Some j" by blast
      with property_keys_disjoint(2) [OF int] show ?thesis
        using set_properties_other [OF 3, of k] set_properties_other [OF 4, of k] by simp
    next
      case str
      from set_properties_value [OF 3 this] obtain j where "map_of r3 k = Some j" by blast
      with property_keys_disjoint(3) [OF str] show ?thesis
        using set_properties_other [OF 4, of k] by simp
    next
      case bool
      from set_properties_value [OF 4 this] obtain j where "map_of r k = Some j" by blast
      then show ?thesis by simp
    qed
  qed
  from d pr fl it st bo show ?thesis by blast
qed

theorem optional_fields_defaulted_witness:
  "partial_ride ''average_watts'' = None
   \<and> activity_to_dict partial_ride = Inr partial_ride_dict
   \<and> map_of partial_ride_dict ''average_watts'' = Some JNull
   \<and> map_of partial_ride_dict ''average_heartrate'' = Some JNull
   \<and> map_of partial_ride_dict ''kudos_count'' = Some (JInt 0)
   \<and> map_of partial_ride_dict ''gear_id'' = Some JNull
   \<and> map_of partial_ride_dict ''private'' = Some (JBool False)"
proof -
  have core: "base_properties partial_ride = Inr (minimal_ride_dict 7 ''2024-03-05'')"
    by (simp add: eval_normalise partial_ride_def minimal_ride_dict_def)
  have f: "\<forall>k v e. k \<in> set float_properties \<and> partial_ride k = Some v \<and> py_float v = Inl e
      \<longrightarrow> caught e"
    by (auto simp: partial_ride_def ride_def float_properties_def str_obj_def float_obj_def
        caught_def split: if_splits)
  have i: "\<forall>k v e. k \<in> set int_properties \<and> partial_ride k = Some v \<and> py_int v = Inl e
      \<longrightarrow> caught e"
    by (auto simp: partial_ride_def ride_def int_properties_def caught_def split: if_splits)
  have s: "\<forall>k v e. k \<in> set str_properties \<and> partial_ride k = Some v \<and> py_str v = Inl e
      \<longrightarrow> caught e"
    by (auto simp: partial_ride_def ride_def str_properties_def split: if_splits)
  have b: "\<forall>k v e. k \<in> set bool_properties \<and> partial_ride k = Some v \<and> py_bool v = Inl e
      \<longrightarrow> caught e"
    by (auto simp: partial_ride_def ride_def bool_properties_def split: if_splits)
  from optional_fields_defaulted [OF core f i s b] obtain r where
    r: "activity_to_dict partial_ride = Inr r"
    and fl: "\<forall>k \<in> set float_properties.
          (partial_ride k = None \<or> partial_ride k = Some PNone
            \<or> (\<exists>v e. partial_ride k = Some v \<and> py_float v = Inl e)) \<longrightarrow>
          map_of r k = Some JNull"
    by blast
  have w: "partial_ride ''average_watts'' = None"
    by (simp add: partial_ride_def ride_def)
  with fl have "map_of r ''average_watts'' = Some JNull"
    by (simp add: float_properties_def)
  moreover from r have "r = partial_ride_dict"
    by (simp add: partial_ride_normalized)
  ultimately show ?thesis using w
    by (simp add: partial_ride_normalized) (simp add: partial_ride_dict_def)
qed

theorem optional_fields_defaulted_counterexample:
  "timed_ride ''average_watts'' = None
   \<and> activity_to_dict timed_ride = Inr (minimal_ride_dict 7 ''2024-03-05'')
   \<and> map_of (minimal_ride_dict 7 ''2024-03-05'') ''average_watts'' = None
   \<and> overflow_ride ''average_watts'' = None
   \<and> activity_to_dict overflow_ride = Inr (minimal_ride_dict 8 ''2024-03-06'')
   \<and> map_of (minimal_ride_dict 8 ''2024-03-06'') ''average_watts'' = None"
  by (simp add: timed_ride_normalized overflow_ride_normalized)
    (simp add: timed_ride_def overflow_ride_def ride_def minimal_ride_dict_def)

text \<open>
  C9 (authorization timeout). When the wait for the authorization code ends with
  \<open>queue.Empty\<close> (no code within the 60 seconds), the flow raises that exception, the
  listener is stopped and its port released, and the credentials file is as before. On
  every exit path the listener is stopped and the port released, and the credentials
  file is written only when the steps up to the code exchange have succeeded.
\<close>

theorem authorization_timeout:
  "(is_set (CLIENT_ID cfg) \<and> is_set (CLIENT_SECRET cfg) \<and> create_local_server p = None
      \<and> (\<exists>url. authorization_url p = Inr url) \<and> webbrowser_open p = None
      \<and> auth_queue_get p = Inl QueueEmpty \<longrightarrow>
        authorize_main cfg p w = (Some QueueEmpty, w\<lparr>serving := False, port_bound := False\<rparr>))
   \<and> (\<not> serving w \<and> \<not> port_bound w \<longrightarrow>
        \<not> serving (snd (authorize_main cfg p w)) \<and> \<not> port_bound (snd (authorize_main cfg p w)))
   \<and> ((\<exists>e. authorize_steps p = Inl e) \<longrightarrow>
        credentials (snd (authorize_main cfg p w)) = credentials w)"
proof (intro conjI impI)
  assume "is_set (CLIENT_ID cfg) \<and> is_set (CLIENT_SECRET cfg) \<and> create_local_server p = None
      \<and> (\<exists>url. authorization_url p = Inr url) \<and> webbrowser_open p = None
      \<and> auth_queue_get p = Inl QueueEmpty"
  then show "authorize_main cfg p w = (Some QueueEmpty, w\<lparr>serving := False, port_bound := False\<rparr>)"
    by (auto simp: authorize_main_def authorize_steps_def may_raise_def stop_server_def)
next
  assume "\<not> serving w \<and> \<not> port_bound w"
  then show "\<not> serving (snd (authorize_main cfg p w))"
    by (auto simp: authorize_main_def stop_server_def Let_def split: option.splits sum.splits)
next
  assume "\<not> serving w \<and> \<not> port_bound w"
  then show "\<not> port_bound (snd (authorize_main cfg p w))"
    by (auto simp: authorize_main_def stop_server_def Let_def split: option.splits sum.splits)
next
  assume "\<exists>e. authorize_steps p = Inl e"
  then show "credentials (snd (authorize_main cfg p w)) = credentials w"
    by (auto simp: authorize_main_def stop_server_def Let_def split: option.splits)
qed

theorem authorization_timeout_witness:
  "authorize_main
     \<lparr>CLIENT_ID = Some ''1'', CLIENT_SECRET = Some ''s'', REFRESH_TOKEN = None\<rparr>
     \<lparr>create_local_server = None, authorization_url = Inr ''https://provider/authorize'',
      webbrowser_open = None, auth_queue_get = Inl QueueEmpty,
      exchange_code_for_token = (\<lambda>code. Inl OtherError)\<rparr>
     \<lparr>serving = False, port_bound = False, credentials = Some ''CLIENT_ID=1''\<rparr>
   = (Some QueueEmpty, \<lparr>serving = False, port_bound = False, credentials = Some ''CLIENT_ID=1''\<rparr>)"
  using authorization_timeout [where cfg =
     "\<lparr>CLIENT_ID = Some ''1'', CLIENT_SECRET = Some ''s'', REFRESH_TOKEN = None\<rparr>"
     and p = "\<lparr>create_local_server = None, authorization_url = Inr ''https://provider/authorize'',
      webbrowser_open = None, auth_queue_get = Inl QueueEmpty,
      exchange_code_for_token = (\<lambda>code. Inl OtherError)\<rparr>"
     and w = "\<lparr>serving = False, port_bound = False, credentials = Some ''CLIENT_ID=1''\<rparr>"]
  by (simp add: is_set_def)

text \<open>
  C2 (credentials-file round trip), as amended. Let the content of the credentials file,
  read in text mode, be empty or end with a newline (the file is empty or ends with a
  newline or a carriage return), and let neither token contain a newline or a carriage
  return. After \<open>update_env_file\<close>, read back line by line in text mode: the lines that start
  with neither \<open>ACCESS_TOKEN=\<close> nor \<open>REFRESH_TOKEN=\<close> are the same as the lines read before,
  in the same order; the value of \<open>ACCESS_TOKEN\<close> and of \<open>REFRESH_TOKEN\<close> is the new token;
  if every line was a \<open>key=value\<close> pair before, every line is one after; and if no key
  appeared twice before, no key appears twice after. The lines read back are the same where
  \<open>os.linesep\<close> is a carriage return and a newline, and a missing file is treated as an
  empty one. In the file itself every line end is rewritten as \<open>os.linesep\<close>, so a line that
  ended with a carriage return and a newline is not kept character by character where
  \<open>os.linesep\<close> is the newline; a key that appears twice before the update appears twice
  after it; and a token with a newline or a carriage return is not read back.
\<close>

theorem credentials_round_trip:
  assumes "ends_with_newline (universal_newlines s)"
    and "newline \<notin> set (access_token t)" and "newline \<notin> set (refresh_token t)"
    and "carriage_return \<notin> set (access_token t)"
    and "carriage_return \<notin> set (refresh_token t)"
  shows "filter (\<lambda>l. \<not> token_line l) (readlines (update_env_file t (Some s)))
        = filter (\<lambda>l. \<not> token_line l) (readlines s)
    \<and> read_env (update_env_file t (Some s)) ''ACCESS_TOKEN'' = Some (access_token t)
    \<and> read_env (update_env_file t (Some s)) ''REFRESH_TOKEN'' = Some (refresh_token t)
    \<and> ((\<forall>l \<in> set (readlines s). line_key l \<noteq> None) \<longrightarrow>
        (\<forall>l \<in> set (readlines (update_env_file t (Some s))). line_key l \<noteq> None))
    \<and> (distinct (List.map_filter line_key (readlines s)) \<longrightarrow>
        distinct (List.map_filter line_key (readlines (update_env_file t (Some s)))))
    \<and> readlines (write_text [carriage_return, newline] (update_env_file t (Some s)))
        = readlines (update_env_file t (Some s))
    \<and> update_env_file t None = update_env_file t (Some [])"
proof (intro conjI impI)
  note out = readlines_updated [OF assms]
  show "filter (\<lambda>l. \<not> token_line l) (readlines (update_env_file t (Some s)))
        = filter (\<lambda>l. \<not> token_line l) (readlines s)"
    by (simp add: out filter_other_lines)
  have "(\<lambda>l. line_key l = Some ''ACCESS_TOKEN'') = prefix ''ACCESS_TOKEN=''"
    "(\<lambda>l. line_key l = Some ''REFRESH_TOKEN'') = prefix ''REFRESH_TOKEN=''"
    by (simp_all add: line_key_tokens fun_eq_iff)
  then have r: "read_env (update_env_file t (Some s)) ''ACCESS_TOKEN''
        = (case filter (prefix ''ACCESS_TOKEN='') (updated_lines t (readlines s)) of
            [] \<Rightarrow> None | l # ls \<Rightarrow> Some (line_value (last (l # ls))))"
    "read_env (update_env_file t (Some s)) ''REFRESH_TOKEN''
        = (case filter (prefix ''REFRESH_TOKEN='') (updated_lines t (readlines s)) of
            [] \<Rightarrow> None | l # ls \<Rightarrow> Some (line_value (last (l # ls))))"
    by (simp_all add: read_env_def out)
  have "last (filter (prefix ''ACCESS_TOKEN='') (updated_lines t (readlines s))) = access_line t"
    by (rule last_all_equal) (auto dest: access_lines_updated(2) simp: access_lines_updated(1))
  with access_lines_updated(1) [of t "readlines s"] r(1) assms(2)
  show "read_env (update_env_file t (Some s)) ''ACCESS_TOKEN'' = Some (access_token t)"
    by (auto simp: line_value_tokens split: list.splits)
  have "last (filter (prefix ''REFRESH_TOKEN='') (updated_lines t (readlines s))) = refresh_line t"
    by (rule last_all_equal) (auto dest: refresh_lines_updated(2) simp: refresh_lines_updated(1))
  with refresh_lines_updated(1) [of t "readlines s"] r(2) assms(3)
  show "read_env (update_env_file t (Some s)) ''REFRESH_TOKEN'' = Some (refresh_token t)"
    by (auto simp: line_value_tokens split: list.splits)
  have free: "carriage_return \<notin> set (update_env_file t (Some s))"
    by (rule update_env_file_free [OF assms(4,5)])
  have "universal_newlines (write_text [carriage_return, newline] (update_env_file t (Some s)))
        = universal_newlines (update_env_file t (Some s))"
    by (simp only: universal_newlines_write_text [OF free] universal_newlines_id [OF free])
  then show "readlines (write_text [carriage_return, newline] (update_env_file t (Some s)))
        = readlines (update_env_file t (Some s))"
    by (simp only: readlines_def)
  show "update_env_file t None = update_env_file t (Some [])"
    by (simp add: update_env_file_eq readlines_def)
next
  assume "\<forall>l \<in> set (readlines s). line_key l \<noteq> None"
  moreover have "line_key (access_line t) \<noteq> None" "line_key (refresh_line t) \<noteq> None"
    using line_key_tokens [of "access_line t"] line_key_tokens [of "refresh_line t"]
    by (simp_all add: token_prefixes)
  ultimately show "\<forall>l \<in> set (readlines (update_env_file t (Some s))). line_key l \<noteq> None"
    unfolding readlines_updated [OF assms]
    by (auto simp: updated_lines_def line_key_rewrite split: if_splits)
next
  assume d: "distinct (List.map_filter line_key (readlines s))"
  have "''ACCESS_TOKEN'' \<notin> set (List.map_filter line_key (readlines s))"
    if "\<not> (\<exists>l \<in> set (readlines s). prefix ''ACCESS_TOKEN='' l)"
    using that by (auto simp: set_map_filter line_key_tokens)
  moreover have "''REFRESH_TOKEN'' \<notin> set (List.map_filter line_key (readlines s))"
    if "\<not> (\<exists>l \<in> set (readlines s). prefix ''REFRESH_TOKEN='' l)"
    using that by (auto simp: set_map_filter line_key_tokens)
  ultimately show "distinct (List.map_filter line_key (readlines (update_env_file t (Some s))))"
    unfolding readlines_updated [OF assms] keys_updated using d by auto
qed

theorem credentials_round_trip_witness:
  "ends_with_newline (universal_newlines
      (''CLIENT_ID=1'' @ [carriage_return, newline]
       @ ''ACCESS_TOKEN=old'' @ [carriage_return, newline]))
   \<and> readlines (''CLIENT_ID=1'' @ [carriage_return, newline]
       @ ''ACCESS_TOKEN=old'' @ [carriage_return, newline])
      = [''CLIENT_ID=1\<newline>'', ''ACCESS_TOKEN=old\<newline>'']
   \<and> update_env_file \<lparr>access_token = ''new'', refresh_token = ''ref''\<rparr>
        (Some (''CLIENT_ID=1'' @ [carriage_return, newline]
               @ ''ACCESS_TOKEN=old'' @ [carriage_return, newline]))
      = ''CLIENT_ID=1\<newline>ACCESS_TOKEN=new\<newline>REFRESH_TOKEN=ref\<newline>''
   \<and> filter (\<lambda>l. \<not> token_line l)
        (readlines ''CLIENT_ID=1\<newline>ACCESS_TOKEN=new\<newline>REFRESH_TOKEN=ref\<newline>'')
      = [''CLIENT_ID=1\<newline>'']
   \<and> read_env ''CLIENT_ID=1\<newline>ACCESS_TOKEN=new\<newline>REFRESH_TOKEN=ref\<newline>''
        ''ACCESS_TOKEN'' = Some ''new''
   \<and> read_env ''CLIENT_ID=1\<newline>ACCESS_TOKEN=new\<newline>REFRESH_TOKEN=ref\<newline>''
        ''REFRESH_TOKEN'' = Some ''ref''"
proof -
  let ?t = "\<lparr>access_token = ''new'', refresh_token = ''ref''\<rparr>"
  let ?s = "''CLIENT_ID=1'' @ [carriage_return, newline]
       @ ''ACCESS_TOKEN=old'' @ [carriage_return, newline]"
  have 1: "ends_with_newline (universal_newlines ?s)" by code_simp
  have 2: "newline \<notin> set (access_token ?t)" "newline \<notin> set (refresh_token ?t)"
    "carriage_return \<notin> set (access_token ?t)" "carriage_return \<notin> set (refresh_token ?t)"
    by (simp_all add: newline_def carriage_return_def)
  have 3: "update_env_file ?t (Some ?s)
      = ''CLIENT_ID=1\<newline>ACCESS_TOKEN=new\<newline>REFRESH_TOKEN=ref\<newline>''"
    by code_simp
  have 4: "readlines ?s = [''CLIENT_ID=1\<newline>'', ''ACCESS_TOKEN=old\<newline>'']"
    by code_simp
  have 5: "filter (\<lambda>l. \<not> token_line l) [''CLIENT_ID=1\<newline>'', ''ACCESS_TOKEN=old\<newline>'']
      = [''CLIENT_ID=1\<newline>'']"
    by code_simp
  note r = credentials_round_trip [OF 1 2]
  have k: "filter (\<lambda>l. \<not> token_line l) (readlines (update_env_file ?t (Some ?s)))
      = filter (\<lambda>l. \<not> token_line l) (readlines ?s)"
    by (rule r [THEN conjunct1])
  have a: "read_env (update_env_file ?t (Some ?s)) ''ACCESS_TOKEN'' = Some (access_token ?t)"
    by (rule r [THEN conjunct2, THEN conjunct1])
  have b: "read_env (update_env_file ?t (Some ?s)) ''REFRESH_TOKEN'' = Some (refresh_token ?t)"
    by (rule r [THEN conjunct2, THEN conjunct2, THEN conjunct1])
  have t: "access_token ?t = ''new''" "refresh_token ?t = ''ref''" by simp_all
  show ?thesis
    using 1 4 3 k a b unfolding 3 4 5 t by (intro conjI)
qed

theorem credentials_round_trip_counterexample:
  "update_env_file \<lparr>access_token = ''new'', refresh_token = ''ref''\<rparr>
        (Some ''ACCESS_TOKEN=x\<newline>ACCESS_TOKEN=y\<newline>'')
      = ''ACCESS_TOKEN=new\<newline>ACCESS_TOKEN=new\<newline>REFRESH_TOKEN=ref\<newline>''
   \<and> List.map_filter line_key
        (readlines ''ACCESS_TOKEN=new\<newline>ACCESS_TOKEN=new\<newline>REFRESH_TOKEN=ref\<newline>'')
      = [''ACCESS_TOKEN'', ''ACCESS_TOKEN'', ''REFRESH_TOKEN'']
   \<and> update_env_file \<lparr>access_token = ''a\<newline>b'', refresh_token = ''ref''\<rparr> (Some [])
      = ''ACCESS_TOKEN=a\<newline>b\<newline>REFRESH_TOKEN=ref\<newline>''
   \<and> read_env ''ACCESS_TOKEN=a\<newline>b\<newline>REFRESH_TOKEN=ref\<newline>'' ''ACCESS_TOKEN''
      = Some ''a''
   \<and> update_env_file \<lparr>access_token = ''new'', refresh_token = ''ref''\<rparr>
        (Some (''CLIENT_ID=1'' @ [carriage_return, newline]
               @ ''ACCESS_TOKEN=x'' @ [carriage_return, newline]
               @ ''REFRESH_TOKEN=y'' @ [carriage_return, newline]))
      = ''CLIENT_ID=1\<newline>ACCESS_TOKEN=new\<newline>REFRESH_TOKEN=ref\<newline>''
   \<and> lines_of (''CLIENT_ID=1'' @ [carriage_return, newline]
               @ ''ACCESS_TOKEN=x'' @ [carriage_return, newline]
               @ ''REFRESH_TOKEN=y'' @ [carriage_return, newline])
      = [''CLIENT_ID=1'' @ [carriage_return, newline],
         ''ACCESS_TOKEN=x'' @ [carriage_return, newline],
         ''REFRESH_TOKEN=y'' @ [carriage_return, newline]]
   \<and> lines_of ''CLIENT_ID=1\<newline>ACCESS_TOKEN=new\<newline>REFRESH_TOKEN=ref\<newline>''
      = [''CLIENT_ID=1\<newline>'', ''ACCESS_TOKEN=new\<newline>'', ''REFRESH_TOKEN=ref\<newline>'']"
proof (intro conjI)
  show "update_env_file \<lparr>access_token = ''new'', refresh_token = ''ref''\<rparr>
        (Some ''ACCESS_TOKEN=x\<newline>ACCESS_TOKEN=y\<newline>'')
      = ''ACCESS_TOKEN=new\<newline>ACCESS_TOKEN=new\<newline>REFRESH_TOKEN=ref\<newline>''"
    by code_simp
  show "List.map_filter line_key
        (readlines ''ACCESS_TOKEN=new\<newline>ACCESS_TOKEN=new\<newline>REFRESH_TOKEN=ref\<newline>'')
      = [''ACCESS_TOKEN'', ''ACCESS_TOKEN'', ''REFRESH_TOKEN'']"
    by code_simp
  show "update_env_file \<lparr>access_token = ''a\<newline>b'', refresh_token = ''ref''\<rparr> (Some [])
      = ''ACCESS_TOKEN=a\<newline>b\<newline>REFRESH_TOKEN=ref\<newline>''"
    by code_simp
  show "read_env ''ACCESS_TOKEN=a\<newline>b\<newline>REFRESH_TOKEN=ref\<newline>'' ''ACCESS_TOKEN''
      = Some ''a''"
    by code_simp
  show "update_env_file \<lparr>access_token = ''new'', refresh_token = ''ref''\<rparr>
        (Some (''CLIENT_ID=1'' @ [carriage_return, newline]
               @ ''ACCESS_TOKEN=x'' @ [carriage_return, newline]
               @ ''REFRESH_TOKEN=y'' @ [carriage_return, newline]))
      = ''CLIENT_ID=1\<newline>ACCESS_TOKEN=new\<newline>REFRESH_TOKEN=ref\<newline>''"
    by code_simp
  show "lines_of (''CLIENT_ID=1'' @ [carriage_return, newline]
               @ ''ACCESS_TOKEN=x'' @ [carriage_return, newline]
               @ ''REFRESH_TOKEN=y'' @ [carriage_return, newline])
      = [''CLIENT_ID=1'' @ [carriage_return, newline],
         ''ACCESS_TOKEN=x'' @ [carriage_return, newline],
         ''REFRESH_TOKEN=y'' @ [carriage_return, newline]]"
    by code_simp
  show "lines_of ''CLIENT_ID=1\<newline>ACCESS_TOKEN=new\<newline>REFRESH_TOKEN=ref\<newline>''
      = [''CLIENT_ID=1\<newline>'', ''ACCESS_TOKEN=new\<newline>'', ''REFRESH_TOKEN=ref\<newline>'']"
    by code_simp
qed

end
